theory Spec2Isabelle
  imports Complex_Main "HOL-Library.Sublist" "HOL-Library.Multiset"
begin

section \<open>JavaScript values\<close>

text \<open>
  A JavaScript number is an IEEE double. The model keeps its four kinds apart: NaN, the two
  infinities, and a finite value, which is the real number the double stands for. The sign
  of zero is not modelled.
\<close>

datatype jsnum = NaN | NegInf | Fin real | PosInf

definition js_neg :: "jsnum \<Rightarrow> jsnum" where
  "js_neg a = (case a of NaN \<Rightarrow> NaN | NegInf \<Rightarrow> PosInf | PosInf \<Rightarrow> NegInf | Fin v \<Rightarrow> Fin (- v))"

subsection \<open>Rounding to a double\<close>

text \<open>
  The double nearest to a real number, ties going to the even significand. A double has 53
  significant bits and a binary exponent from -1022 to 1023; below, the numbers are
  multiples of \<open>2\<close> to the \<open>-1074\<close>; a result of \<open>2\<close> to the \<open>1024\<close> or more is infinite.
  \<open>bits n\<close> is the length of \<open>n\<close> in binary, from which the exponent of a positive real is
  read off its integer part, or off the integer part of its inverse when it is below 1.
\<close>

fun bits :: "nat \<Rightarrow> nat" where
  "bits n = (if n = 0 then 0 else Suc (bits (n div 2)))"

declare bits.simps [simp del]

definition pow2 :: "int \<Rightarrow> real" where
  "pow2 e = (if 0 \<le> e then 2 ^ nat e else 1 / 2 ^ nat (- e))"

definition double_exponent :: "real \<Rightarrow> int" where
  "double_exponent x =
     max (- 1022)
       (if 1 \<le> x then int (bits (nat \<lfloor>x\<rfloor>)) - 1
        else - int (bits (nat (\<lceil>1 / x\<rceil> - 1))))"

definition round_half_even :: "real \<Rightarrow> int" where
  "round_half_even y =
     (let f = \<lfloor>y\<rfloor>; d = y - of_int f
      in if d < 1 / 2 then f else if 1 / 2 < d then f + 1 else if even f then f else f + 1)"

definition round_magnitude :: "real \<Rightarrow> jsnum" where
  "round_magnitude x =
     (if x = 0 then Fin 0
      else let q = pow2 (double_exponent x - 52);
               v = of_int (round_half_even (x / q)) * q
           in if pow2 1024 \<le> v then PosInf else Fin v)"

definition round_double :: "real \<Rightarrow> jsnum" where
  "round_double x = (if x < 0 then js_neg (round_magnitude (- x)) else round_magnitude x)"

subsection \<open>Operators\<close>

text \<open>
  Division rounds its quotient to a double. Subtraction is used by the sort only, which
  reads the sign of the result; the difference of two doubles rounds to a double of the
  same sign, and the model leaves it exact.
\<close>

text \<open>The operator \<^verbatim>\<open>a - b\<close>.\<close>

fun js_sub :: "jsnum \<Rightarrow> jsnum \<Rightarrow> jsnum" where
  "js_sub NaN b = NaN"
| "js_sub a NaN = NaN"
| "js_sub PosInf PosInf = NaN"
| "js_sub NegInf NegInf = NaN"
| "js_sub PosInf b = PosInf"
| "js_sub NegInf b = NegInf"
| "js_sub (Fin a) PosInf = NegInf"
| "js_sub (Fin a) NegInf = PosInf"
| "js_sub (Fin a) (Fin b) = Fin (a - b)"

text \<open>The operator \<^verbatim>\<open>a / b\<close>; a zero divisor counts as positive zero.\<close>

fun js_div :: "jsnum \<Rightarrow> jsnum \<Rightarrow> jsnum" where
  "js_div NaN b = NaN"
| "js_div a NaN = NaN"
| "js_div (Fin a) (Fin b) =
     (if b = 0 then (if a = 0 then NaN else if 0 < a then PosInf else NegInf)
      else round_double (a / b))"
| "js_div (Fin a) b = Fin 0"
| "js_div PosInf (Fin b) = (if b < 0 then NegInf else PosInf)"
| "js_div NegInf (Fin b) = (if b < 0 then PosInf else NegInf)"
| "js_div a b = NaN"

text \<open>The operators \<^verbatim>\<open><\<close>, \<^verbatim>\<open>>\<close>, \<^verbatim>\<open><=\<close> and \<^verbatim>\<open>===\<close>: every comparison with NaN is false.\<close>

fun js_lt :: "jsnum \<Rightarrow> jsnum \<Rightarrow> bool" where
  "js_lt NaN b = False"
| "js_lt a NaN = False"
| "js_lt a NegInf = False"
| "js_lt NegInf b = True"
| "js_lt PosInf b = False"
| "js_lt (Fin a) PosInf = True"
| "js_lt (Fin a) (Fin b) = (a < b)"

definition js_gt :: "jsnum \<Rightarrow> jsnum \<Rightarrow> bool" where
  "js_gt a b = js_lt b a"

definition js_le :: "jsnum \<Rightarrow> jsnum \<Rightarrow> bool" where
  "js_le a b = (a \<noteq> NaN \<and> b \<noteq> NaN \<and> \<not> js_lt b a)"

definition js_eq :: "jsnum \<Rightarrow> jsnum \<Rightarrow> bool" where
  "js_eq a b = (a \<noteq> NaN \<and> a = b)"

text \<open>The operator \<^verbatim>\<open>x ?? Infinity\<close> on a value that may be null or undefined.\<close>

definition nullish_Infinity :: "jsnum option \<Rightarrow> jsnum" where
  "nullish_Infinity x = (case x of None \<Rightarrow> PosInf | Some v \<Rightarrow> v)"

text \<open>
  A JavaScript string is a sequence of UTF-16 code units, here natural numbers.
  \<open>of_ascii\<close> writes an ASCII literal.
\<close>

type_synonym jsstring = "nat list"

definition of_ascii :: "string \<Rightarrow> jsstring" where
  "of_ascii s = map of_char s"

text \<open>The regular-expression classes \<^verbatim>\<open>\d\<close> (ASCII digits) and \<^verbatim>\<open>\s\<close> (white space and line terminators).\<close>

definition is_digit :: "nat \<Rightarrow> bool" where
  "is_digit c = (48 \<le> c \<and> c \<le> 57)"

definition is_space :: "nat \<Rightarrow> bool" where
  "is_space c =
     ((9 \<le> c \<and> c \<le> 13) \<or> c = 32 \<or> c = 160 \<or> c = 5760 \<or> (8192 \<le> c \<and> c \<le> 8202)
      \<or> c = 8232 \<or> c = 8233 \<or> c = 8239 \<or> c = 8287 \<or> c = 12288 \<or> c = 65279)"

definition slash :: nat where
  "slash = 47"

definition dot :: nat where
  "dot = 46"

text \<open>The value of a run of decimal digits.\<close>

definition digits_value :: "jsstring \<Rightarrow> nat" where
  "digits_value ds = foldl (\<lambda>n d. 10 * n + (d - 48)) 0 ds"

text \<open>The value of a decimal numeral with integer digits \<open>ip\<close> and fraction digits \<open>fp\<close>.\<close>

definition decimal_value :: "jsstring \<Rightarrow> jsstring \<Rightarrow> real" where
  "decimal_value ip fp = real (digits_value ip) + real (digits_value fp) / 10 ^ length fp"

text \<open>
  \<^verbatim>\<open>parseInt\<close> and \<^verbatim>\<open>parseFloat\<close>, on the strings the program gives them: a capture of
  \<^verbatim>\<open>\d+\<close>, and a capture of \<^verbatim>\<open>\d+(?:\.\d+)?\<close>. Both read the longest prefix of that shape,
  return the double nearest to its value, and return NaN when there is no such prefix.
  (ECMAScript lets an implementation replace the digits after the twentieth by zeros; the
  model rounds the full value, as the common engines do.)
\<close>

definition parseInt :: "jsstring \<Rightarrow> jsnum" where
  "parseInt s =
     (let ds = takeWhile is_digit s
      in if ds = [] then NaN else round_double (real (digits_value ds)))"

definition parseFloat :: "jsstring \<Rightarrow> jsnum" where
  "parseFloat s =
     (let ip = takeWhile is_digit s;
          fp = (case dropWhile is_digit s of
                  [] \<Rightarrow> []
                | c # r \<Rightarrow> if c = dot then takeWhile is_digit r else [])
      in if ip = [] then NaN else round_double (decimal_value ip fp))"

section \<open>The data model (types.ts)\<close>

text \<open>
  The records follow the interfaces of the source. Fields that the code reads through a
  null guard (\<^verbatim>\<open>??\<close>, \<^verbatim>\<open>?.\<close>, a falsy test) are options, \<open>None\<close> standing for null or
  undefined. The identifier of a resort is \<open>resort_id\<close>, and the fields \<^verbatim>\<open>page\<close> and
  \<^verbatim>\<open>resorts\<close> of a response are \<open>resp_page\<close> and \<open>resp_resorts\<close>, the plain names being
  taken by the identity function and by the state of the component.
\<close>

record WeatherPeriod =
  time :: jsstring
  temperature_celsius :: jsnum
  precipitation_mm :: jsnum
  snowfall_cm :: jsnum
  cloud_cover_percent :: jsnum
  visibility_m :: jsnum

record WeatherData =
  snowfall_prev_24h_cm :: jsnum
  morning :: WeatherPeriod
  midday :: WeatherPeriod
  afternoon :: WeatherPeriod

record SnowReport =
  pistes_km :: "jsstring option"
  lifts :: "jsstring option"
  snow_depth_cm :: jsstring
  updated_on :: jsstring

record ResortLocation =
  lat :: jsnum
  lng :: jsnum

record Resort =
  resort_id :: jsstring
  name :: jsstring
  location :: ResortLocation
  elevation :: jsstring
  snowreport_url :: jsstring
  air_distance_km :: jsnum
  distance_km :: "jsnum option"
  duration_driving_minutes :: "jsnum option"
  duration_transit_minutes :: "jsnum option"
  snow_report :: "SnowReport option"
  weather :: WeatherData
  image_url :: jsstring

record ResortsResponse =
  resp_page :: nat
  page_size :: nat
  total_resorts :: nat
  has_more :: bool
  resp_resorts :: "Resort list"

datatype SortType = proximity | driving | transit

record Filters =
  goodWeather :: bool
  freshSnow :: bool
  liftsOpen :: bool
  minPistes :: bool

section \<open>The filter predicates\<close>

text \<open>
  \<^verbatim>\<open>isGoodWeather\<close>: every one of the three periods has cloud cover at most 75 and neither
  snowfall nor precipitation.
\<close>

definition goodPeriod :: "WeatherPeriod \<Rightarrow> bool" where
  "goodPeriod p =
     (js_le (cloud_cover_percent p) (Fin 75) \<and> js_eq (snowfall_cm p) (Fin 0)
      \<and> js_eq (precipitation_mm p) (Fin 0))"

definition isGoodWeather :: "Resort \<Rightarrow> bool" where
  "isGoodWeather resort =
     list_all goodPeriod
       [morning (weather resort), midday (weather resort), afternoon (weather resort)]"

text \<open>
  The regular expression \<^verbatim>\<open>/(\d+)\s*\/\s*(\d+)/\<close> tried at the start of a string. Each
  quantifier is greedy and is followed by a character outside its class, so giving back a
  character never helps: the match, if any, takes the longest runs.
\<close>

definition match_lifts_at :: "jsstring \<Rightarrow> (jsstring \<times> jsstring) option" where
  "match_lifts_at s =
     (let opn = takeWhile is_digit s
      in if opn = [] then None
         else (case dropWhile is_space (dropWhile is_digit s) of
                 [] \<Rightarrow> None
               | c # r \<Rightarrow>
                   if c \<noteq> slash then None
                   else let tot = takeWhile is_digit (dropWhile is_space r)
                        in if tot = [] then None else Some (opn, tot)))"

text \<open>\<^verbatim>\<open>String.prototype.match\<close> without the global flag: the leftmost position that matches.\<close>

fun match_lifts :: "jsstring \<Rightarrow> (jsstring \<times> jsstring) option" where
  "match_lifts [] = None"
| "match_lifts (c # cs) =
     (case match_lifts_at (c # cs) of
        Some g \<Rightarrow> Some g
      | None \<Rightarrow> match_lifts cs)"

text \<open>\<^verbatim>\<open>hasEnoughLiftsOpen\<close>. The literal \<^verbatim>\<open>0.85\<close> is the double nearest to 85/100.\<close>

definition hasEnoughLiftsOpen :: "Resort \<Rightarrow> bool" where
  "hasEnoughLiftsOpen resort =
     (case snow_report resort of
        None \<Rightarrow> False
      | Some rep \<Rightarrow>
          (case lifts rep of
             None \<Rightarrow> False
           | Some l \<Rightarrow>
               if l = [] then False
               else (case match_lifts l of
                       None \<Rightarrow> False
                     | Some (opn, tot) \<Rightarrow>
                         js_gt (js_div (parseInt opn) (parseInt tot)) (round_double (85 / 100)))))"

text \<open>The regular expression \<^verbatim>\<open>/(\d+(?:\.\d+)?)/\<close>, at the start of a string and leftmost.\<close>

definition match_pistes_at :: "jsstring \<Rightarrow> jsstring option" where
  "match_pistes_at s =
     (let ip = takeWhile is_digit s
      in if ip = [] then None
         else (case dropWhile is_digit s of
                 [] \<Rightarrow> Some ip
               | c # r \<Rightarrow>
                   if c = dot \<and> takeWhile is_digit r \<noteq> []
                   then Some (ip @ [dot] @ takeWhile is_digit r)
                   else Some ip))"

fun match_pistes :: "jsstring \<Rightarrow> jsstring option" where
  "match_pistes [] = None"
| "match_pistes (c # cs) =
     (case match_pistes_at (c # cs) of
        Some g \<Rightarrow> Some g
      | None \<Rightarrow> match_pistes cs)"

text \<open>\<^verbatim>\<open>getPistesKm\<close>.\<close>

definition getPistesKm :: "Resort \<Rightarrow> jsnum" where
  "getPistesKm resort =
     (case snow_report resort of
        None \<Rightarrow> Fin 0
      | Some rep \<Rightarrow>
          (case pistes_km rep of
             None \<Rightarrow> Fin 0
           | Some p \<Rightarrow>
               if p = [] then Fin 0
               else (case match_pistes p of
                       None \<Rightarrow> Fin 0
                     | Some g \<Rightarrow> parseFloat g)))"

text \<open>The callback of \<^verbatim>\<open>resorts.filter\<close> in \<^verbatim>\<open>filteredAndSortedResorts\<close>.\<close>

definition keepResort :: "Filters \<Rightarrow> Resort \<Rightarrow> bool" where
  "keepResort filters resort =
     (if goodWeather filters \<and> \<not> isGoodWeather resort then False
      else if freshSnow filters \<and> js_le (snowfall_prev_24h_cm (weather resort)) (Fin 0) then False
      else if liftsOpen filters \<and> \<not> hasEnoughLiftsOpen resort then False
      else if minPistes filters \<and> js_lt (getPistesKm resort) (Fin 20) then False
      else True)"

section \<open>Sorting\<close>

text \<open>The comparator \<^verbatim>\<open>(a, b) => valA - valB\<close>, the value chosen by the sort type.\<close>

definition sortValue :: "SortType \<Rightarrow> Resort \<Rightarrow> jsnum" where
  "sortValue sortType r =
     (case sortType of
        proximity \<Rightarrow> nullish_Infinity (distance_km r)
      | driving \<Rightarrow> nullish_Infinity (duration_driving_minutes r)
      | transit \<Rightarrow> nullish_Infinity (duration_transit_minutes r))"

definition compareResorts :: "SortType \<Rightarrow> Resort \<Rightarrow> Resort \<Rightarrow> jsnum" where
  "compareResorts sortType a b = js_sub (sortValue sortType a) (sortValue sortType b)"

text \<open>
  \<^verbatim>\<open>Array.prototype.sort\<close> with a comparator. ECMAScript (2019 and later) asks for a stable
  sort, reads a comparator result NaN as zero, and fixes the result whenever the comparator
  is consistent; the model is the stable insertion sort, which moves an element past
  another one only when the comparator says it is greater.
\<close>

fun js_insert :: "('a \<Rightarrow> 'a \<Rightarrow> jsnum) \<Rightarrow> 'a \<Rightarrow> 'a list \<Rightarrow> 'a list" where
  "js_insert cmp x [] = [x]"
| "js_insert cmp x (y # ys) =
     (if js_gt (cmp x y) (Fin 0) then y # js_insert cmp x ys else x # y # ys)"

definition js_sort :: "('a \<Rightarrow> 'a \<Rightarrow> jsnum) \<Rightarrow> 'a list \<Rightarrow> 'a list" where
  "js_sort cmp xs = foldr (js_insert cmp) xs []"

text \<open>The visible list as a value: filter, then sort.\<close>

definition filteredAndSortedResorts :: "Filters \<Rightarrow> SortType \<Rightarrow> Resort list \<Rightarrow> Resort list" where
  "filteredAndSortedResorts filters sortType resorts =
     js_sort (compareResorts sortType) (filter (keepResort filters) resorts)"

subsection \<open>Arrays in a store\<close>

text \<open>
  \<^verbatim>\<open>filter\<close> returns a new array and \<^verbatim>\<open>sort\<close> sorts its receiver in place. To say which
  array is written, arrays live in a store: a map from addresses to contents, with the next
  free address.
\<close>

record store =
  cells :: "nat \<Rightarrow> Resort list option"
  next_free :: nat

definition read_array :: "store \<Rightarrow> nat \<Rightarrow> Resort list" where
  "read_array h a = (case cells h a of None \<Rightarrow> [] | Some xs \<Rightarrow> xs)"

definition array_filter :: "(Resort \<Rightarrow> bool) \<Rightarrow> nat \<Rightarrow> store \<Rightarrow> nat \<times> store" where
  "array_filter keep a h =
     (next_free h,
      h\<lparr>cells := (cells h)(next_free h \<mapsto> filter keep (read_array h a)),
        next_free := Suc (next_free h)\<rparr>)"

definition array_sort :: "(Resort \<Rightarrow> Resort \<Rightarrow> jsnum) \<Rightarrow> nat \<Rightarrow> store \<Rightarrow> nat \<times> store" where
  "array_sort cmp a h = (a, h\<lparr>cells := (cells h)(a \<mapsto> js_sort cmp (read_array h a))\<rparr>)"

text \<open>The body of the memo: the address of the visible list and the store it leaves.\<close>

definition filteredAndSortedResorts_st ::
  "Filters \<Rightarrow> SortType \<Rightarrow> nat \<Rightarrow> store \<Rightarrow> nat \<times> store" where
  "filteredAndSortedResorts_st filters sortType resorts_addr h =
     (case array_filter (keepResort filters) resorts_addr h of
        (filtered, h1) \<Rightarrow> array_sort (compareResorts sortType) filtered h1)"

section \<open>The services (services/api.ts)\<close>

text \<open>
  What the network answers is an input of the model. A request for resorts either fails in
  transport or brings a response with its \<^verbatim>\<open>ok\<close> flag, its status text and the result of
  decoding its body (\<open>None\<close> when the body is not JSON). A decoded body is taken to have the
  shape of \<^verbatim>\<open>ResortsResponse\<close>, as the cast in the source does.
\<close>

datatype http_outcome = NetworkFailure | HttpResponse bool jsstring "ResortsResponse option"

datatype fetch_error = NetworkError | ApiError jsstring | JsonError

datatype log_entry = FailedToFetch fetch_error | ErrorLoadingResorts fetch_error

record fetch_request =
  rq_lat :: jsnum
  rq_lng :: jsnum
  rq_date :: jsstring
  rq_page :: nat
  rq_page_size :: nat

text \<open>
  The geocoding service fails or returns a list of places; \<^verbatim>\<open>geocodeLocation\<close> takes the
  first place and turns every failure into null. The places carry their coordinates as
  numbers, that is after \<^verbatim>\<open>parseFloat\<close>.
\<close>

datatype geocode_outcome = GeocodeFailure | GeocodeResults "ResortLocation list"

definition geocodeLocation :: "geocode_outcome \<Rightarrow> ResortLocation option" where
  "geocodeLocation r =
     (case r of
        GeocodeFailure \<Rightarrow> None
      | GeocodeResults [] \<Rightarrow> None
      | GeocodeResults (x # rest) \<Rightarrow> Some x)"

section \<open>The state of the application component\<close>

datatype LocationStatus = idle | locating | success | error

text \<open>
  One field for each state variable of the component that the search logic reads or writes.
  The last three fields are not state of the component: they record what the user and the
  outside saw, namely the alerts shown, the console, and the resort requests sent.
\<close>

record AppState =
  userLocation :: "ResortLocation option"
  locationInput :: jsstring
  isUsingGPS :: bool
  locationStatus :: LocationStatus
  sortType :: SortType
  filters :: Filters
  date :: jsstring
  resorts :: "Resort list"
  page :: nat
  hasMore :: bool
  loading :: bool
  searchPerformed :: bool
  totalResorts :: nat
  shouldScrollToResults :: bool
  alerts :: "jsstring list"
  console :: "log_entry list"
  requests :: "fetch_request list"

definition initialState :: "jsstring \<Rightarrow> AppState" where
  "initialState today =
     \<lparr>userLocation = None, locationInput = [], isUsingGPS = False, locationStatus = idle,
      sortType = proximity,
      filters = \<lparr>goodWeather = False, freshSnow = False, liftsOpen = False, minPistes = False\<rparr>,
      date = today, resorts = [], page = 1, hasMore = False, loading = False,
      searchPerformed = False, totalResorts = 0, shouldScrollToResults = False,
      alerts = [], console = [], requests = []\<rparr>"

section \<open>loadResorts\<close>

text \<open>
  \<^verbatim>\<open>loadResorts\<close> is asynchronous: it runs up to an \<^verbatim>\<open>await\<close>, and goes on when the answer
  arrives. A task is a suspended call: what it waits for and what it still needs. The call
  reads \<^verbatim>\<open>userLocation\<close>, \<^verbatim>\<open>isUsingGPS\<close>, \<^verbatim>\<open>locationInput\<close>, \<^verbatim>\<open>date\<close> and \<^verbatim>\<open>page\<close> from
  the render that created the function (the snapshot \<open>snap\<close>, of which nothing else is
  read), while each setter writes the state current at that moment (\<open>s\<close>).
\<close>

datatype task =
    AwaitGeocode1 bool AppState
  | AwaitGeocode2 bool AppState
  | AwaitFetch bool fetch_request

definition currentLocationLabel :: jsstring where
  "currentLocationLabel = of_ascii ''Current Location''"

text \<open>The end of the \<^verbatim>\<open>try\<close> block: choose the page and call \<^verbatim>\<open>fetchResorts\<close>.\<close>

definition startFetch :: "bool \<Rightarrow> AppState \<Rightarrow> ResortLocation \<Rightarrow> AppState \<Rightarrow> AppState \<times> task option" where
  "startFetch isNewSearch snap targetLocation s =
     (let pageToFetch = (if isNewSearch then 1 else page snap + 1);
          rq = \<lparr>rq_lat = lat targetLocation, rq_lng = lng targetLocation, rq_date = date snap,
                rq_page = pageToFetch, rq_page_size = 15\<rparr>
      in (s\<lparr>requests := requests s @ [rq]\<rparr>, Some (AwaitFetch isNewSearch rq)))"

text \<open>The second test of \<^verbatim>\<open>targetLocation\<close>, with its own attempt to geocode.\<close>

definition afterResolve ::
  "bool \<Rightarrow> AppState \<Rightarrow> ResortLocation option \<Rightarrow> AppState \<Rightarrow> AppState \<times> task option" where
  "afterResolve isNewSearch snap targetLocation s =
     (case targetLocation of
        None \<Rightarrow>
          if locationInput snap \<noteq> [] \<and> locationInput snap \<noteq> currentLocationLabel
             \<and> \<not> isUsingGPS snap
          then (s, Some (AwaitGeocode2 isNewSearch snap))
          else (s\<lparr>loading := False\<rparr>, None)
      | Some t \<Rightarrow> startFetch isNewSearch snap t s)"

text \<open>The call itself, up to its first \<^verbatim>\<open>await\<close> or its return.\<close>

definition loadResorts :: "bool \<Rightarrow> AppState \<Rightarrow> AppState \<Rightarrow> AppState \<times> task option" where
  "loadResorts isNewSearch snap s =
     (let s1 = s\<lparr>loading := True\<rparr>
      in if \<not> isUsingGPS snap \<and> locationInput snap \<noteq> []
            \<and> locationInput snap \<noteq> currentLocationLabel
         then (case userLocation snap of
                 None \<Rightarrow> (s1, Some (AwaitGeocode1 isNewSearch snap))
               | Some t \<Rightarrow> afterResolve isNewSearch snap (Some t) s1)
         else afterResolve isNewSearch snap (userLocation snap) s1)"

text \<open>The first geocoding answers: adopt the place, or alert, clear the indicator and return.\<close>

definition geocoded1 ::
  "bool \<Rightarrow> AppState \<Rightarrow> ResortLocation option \<Rightarrow> AppState \<Rightarrow> AppState \<times> task option" where
  "geocoded1 isNewSearch snap geocoded s =
     (case geocoded of
        Some g \<Rightarrow> afterResolve isNewSearch snap (Some g) (s\<lparr>userLocation := Some g\<rparr>)
      | None \<Rightarrow>
          (s\<lparr>alerts := alerts s @ [of_ascii ''Could not find location: '' @ locationInput snap],
             loading := False\<rparr>, None))"

text \<open>The second geocoding answers: adopt the place, or clear the indicator and return.\<close>

definition geocoded2 ::
  "bool \<Rightarrow> AppState \<Rightarrow> ResortLocation option \<Rightarrow> AppState \<Rightarrow> AppState \<times> task option" where
  "geocoded2 isNewSearch snap geocoded s =
     (case geocoded of
        Some g \<Rightarrow> startFetch isNewSearch snap g (s\<lparr>userLocation := Some g\<rparr>)
      | None \<Rightarrow> (s\<lparr>loading := False\<rparr>, None))"

text \<open>
  \<^verbatim>\<open>fetchResorts\<close> when the network answers: a transport failure, a status that is not ok
  and a body that does not decode are logged and thrown again.
\<close>

definition fetchResorts :: "http_outcome \<Rightarrow> AppState \<Rightarrow> AppState \<times> (fetch_error + ResortsResponse)" where
  "fetchResorts r s =
     (let outcome =
            (case r of
               NetworkFailure \<Rightarrow> Inl NetworkError
             | HttpResponse ok statusText body \<Rightarrow>
                 if \<not> ok then Inl (ApiError (of_ascii ''API Error: '' @ statusText))
                 else (case body of None \<Rightarrow> Inl JsonError | Some d \<Rightarrow> Inr d))
      in case outcome of
           Inl e \<Rightarrow> (s\<lparr>console := console s @ [FailedToFetch e]\<rparr>, Inl e)
         | Inr d \<Rightarrow> (s, Inr d))"

text \<open>
  The rest of \<^verbatim>\<open>loadResorts\<close> when the fetch answers. The result is a sum: \<open>Inl\<close> would be
  a rejection of the promise that \<^verbatim>\<open>loadResorts\<close> returns, which no caller handles.
\<close>

definition catchClause :: "fetch_error \<Rightarrow> AppState \<Rightarrow> AppState" where
  "catchClause e s = s\<lparr>console := console s @ [ErrorLoadingResorts e]\<rparr>"

definition finallyClause :: "AppState \<Rightarrow> AppState" where
  "finallyClause s = s\<lparr>loading := False\<rparr>"

definition fetched :: "bool \<Rightarrow> fetch_request \<Rightarrow> http_outcome \<Rightarrow> AppState \<Rightarrow> fetch_error + AppState" where
  "fetched isNewSearch rq r s =
     (case fetchResorts r s of
        (s1, Inr data) \<Rightarrow>
          Inr (finallyClause
                 (s1\<lparr>resorts := (if isNewSearch then resp_resorts data
                                  else resorts s1 @ resp_resorts data),
                     page := rq_page rq,
                     hasMore := has_more data,
                     totalResorts := total_resorts data,
                     searchPerformed := True\<rparr>))
      | (s1, Inl e) \<Rightarrow> Inr (finallyClause (catchClause e s1)))"

text \<open>
  \<^verbatim>\<open>handleSearch\<close> and \<^verbatim>\<open>handleLoadMore\<close> of the render whose state is \<open>s\<close>, run while
  \<open>s\<close> is still the current state, as a click on a button of that render does.
\<close>

definition handleSearch :: "AppState \<Rightarrow> AppState \<times> task option" where
  "handleSearch s =
     loadResorts True (s\<lparr>shouldScrollToResults := True\<rparr>) (s\<lparr>shouldScrollToResults := True\<rparr>)"

definition handleLoadMore :: "AppState \<Rightarrow> AppState \<times> task option" where
  "handleLoadMore s = loadResorts False s s"

section \<open>The controls and the event loop\<close>

text \<open>\<^verbatim>\<open>String.prototype.trim\<close>, and \<^verbatim>\<open>canSearch\<close> of the input section, which enables the search button.\<close>

definition js_trim :: "jsstring \<Rightarrow> jsstring" where
  "js_trim s = rev (dropWhile is_space (rev (dropWhile is_space s)))"

definition canSearch :: "AppState \<Rightarrow> bool" where
  "canSearch s =
     (\<not> loading s
      \<and> ((2 < length (js_trim (locationInput s)) \<and> \<not> isUsingGPS s)
         \<or> (isUsingGPS s \<and> locationStatus s = success)))"

text \<open>
  The button that loads more is rendered when a search was performed, nothing is loading and
  there is more. The observer of \<^verbatim>\<open>lastResortElementRef\<close> watches the item before the last of
  the visible list, when there are at least two, and is not set up while loading.
\<close>

definition loadMoreButtonShown :: "AppState \<Rightarrow> bool" where
  "loadMoreButtonShown s = (searchPerformed s \<and> \<not> loading s \<and> hasMore s)"

definition sentinelObserved :: "AppState \<Rightarrow> bool" where
  "sentinelObserved s =
     (searchPerformed s \<and> \<not> loading s
      \<and> 1 < length (filteredAndSortedResorts (filters s) (sortType s) (resorts s)))"

text \<open>
  A configuration is the state, the suspended calls of \<^verbatim>\<open>loadResorts\<close>, the rejections
  nobody handled, and the state of the render whose \<^verbatim>\<open>handleLoadMore\<close> and \<^verbatim>\<open>hasMore\<close> the
  observer holds. The buttons take their handlers from the latest render, whose state is the
  current one. The observer is made by \<^verbatim>\<open>lastResortElementRef\<close>, which \<^verbatim>\<open>useCallback\<close> makes anew
  only in a render in which \<^verbatim>\<open>loading\<close> or \<^verbatim>\<open>hasMore\<close> differ from what they were when it
  was last made; until then the observer keeps the functions of that earlier render.
\<close>

record config =
  app :: AppState
  pending :: "task list"
  unhandled :: "fetch_error list"
  closure :: AppState

definition initialConfig :: "jsstring \<Rightarrow> config" where
  "initialConfig today =
     \<lparr>app = initialState today, pending = [], unhandled = [], closure = initialState today\<rparr>"

text \<open>
  A render after the state has changed: the dependencies of \<^verbatim>\<open>useCallback\<close> are compared
  with those of the callback it holds. All the updates of one step are taken to be rendered
  together.
\<close>

definition render :: "config \<Rightarrow> config" where
  "render c =
     (if loading (app c) = loading (closure c) \<and> hasMore (app c) = hasMore (closure c) then c
      else c\<lparr>closure := app c\<rparr>)"

datatype event =
    CallHandleSearch
  | CallHandleLoadMore
  | ClickSearch
  | ClickLoadMore
  | SentinelIntersects
  | InputChange jsstring
  | ClearInput
  | SuggestionClick jsstring jsnum jsnum
  | RequestLocation bool
  | PositionFound jsnum jsnum
  | PositionError
  | DateChange jsstring
  | SortChange SortType
  | FiltersChange Filters
  | ScrolledToResults
  | GeocodeAnswer nat geocode_outcome
  | FetchAnswer nat http_outcome

text \<open>A call that starts adds its task, if it suspends; an answer replaces the task it resumes.\<close>

definition spawn :: "AppState \<times> task option \<Rightarrow> config \<Rightarrow> config" where
  "spawn r c =
     render (c\<lparr>app := fst r,
               pending := pending c @ (case snd r of None \<Rightarrow> [] | Some t \<Rightarrow> [t])\<rparr>)"

definition settle :: "nat \<Rightarrow> AppState \<times> task option \<Rightarrow> config \<Rightarrow> config" where
  "settle i r c =
     render (c\<lparr>app := fst r,
               pending := take i (pending c) @ (case snd r of None \<Rightarrow> [] | Some t \<Rightarrow> [t])
                          @ drop (Suc i) (pending c)\<rparr>)"

definition answerGeocode :: "nat \<Rightarrow> geocode_outcome \<Rightarrow> config \<Rightarrow> config" where
  "answerGeocode i r c =
     (if i < length (pending c)
      then (case pending c ! i of
              AwaitGeocode1 isNewSearch snap \<Rightarrow>
                settle i (geocoded1 isNewSearch snap (geocodeLocation r) (app c)) c
            | AwaitGeocode2 isNewSearch snap \<Rightarrow>
                settle i (geocoded2 isNewSearch snap (geocodeLocation r) (app c)) c
            | AwaitFetch isNewSearch rq \<Rightarrow> c)
      else c)"

definition answerFetch :: "nat \<Rightarrow> http_outcome \<Rightarrow> config \<Rightarrow> config" where
  "answerFetch i r c =
     (if i < length (pending c)
      then (case pending c ! i of
              AwaitFetch isNewSearch rq \<Rightarrow>
                (case fetched isNewSearch rq r (app c) of
                   Inr s' \<Rightarrow> settle i (s', None) c
                 | Inl e \<Rightarrow> (settle i (app c, None) c)\<lparr>unhandled := unhandled c @ [e]\<rparr>)
            | AwaitGeocode1 isNewSearch snap \<Rightarrow> c
            | AwaitGeocode2 isNewSearch snap \<Rightarrow> c)
      else c)"

text \<open>
  The handlers of the component and of the input section. The first two events call
  \<^verbatim>\<open>handleSearch\<close> and \<^verbatim>\<open>handleLoadMore\<close> of the latest render directly; the next three go
  through the controls that the page offers. When the watched item comes into view, the
  observer tests the \<^verbatim>\<open>hasMore\<close> it holds and calls the \<^verbatim>\<open>handleLoadMore\<close> it holds, whose
  \<^verbatim>\<open>loadResorts\<close> reads the state of that earlier render. An observer that was disconnected
  is taken to report nothing any more.
\<close>

fun fire :: "event \<Rightarrow> config \<Rightarrow> config" where
  "fire CallHandleSearch c = spawn (handleSearch (app c)) c"
| "fire CallHandleLoadMore c = spawn (handleLoadMore (app c)) c"
| "fire ClickSearch c = (if canSearch (app c) then spawn (handleSearch (app c)) c else c)"
| "fire ClickLoadMore c =
     (if loadMoreButtonShown (app c) then spawn (handleLoadMore (app c)) c else c)"
| "fire SentinelIntersects c =
     (if sentinelObserved (app c) \<and> hasMore (closure c)
      then spawn (loadResorts False (closure c) (app c)) c
      else c)"
| "fire (InputChange v) c =
     render (c\<lparr>app := (app c)\<lparr>locationInput := v, isUsingGPS := False\<rparr>\<rparr>)"
| "fire ClearInput c =
     render (c\<lparr>app := (app c)\<lparr>locationInput := [], isUsingGPS := False\<rparr>\<rparr>)"
| "fire (SuggestionClick display_name la lo) c =
     render (c\<lparr>app := (app c)\<lparr>locationInput := takeWhile (\<lambda>ch. ch \<noteq> 44) display_name,
                                userLocation := Some \<lparr>lat = la, lng = lo\<rparr>,
                                isUsingGPS := False, locationStatus := idle\<rparr>\<rparr>)"
| "fire (RequestLocation supported) c =
     (if \<not> supported
      then render (c\<lparr>app := (app c)\<lparr>locationStatus := error, isUsingGPS := False\<rparr>\<rparr>)
      else render (c\<lparr>app := (app c)\<lparr>locationStatus := locating, isUsingGPS := True,
                                     locationInput := of_ascii ''Locating...''\<rparr>\<rparr>))"
| "fire (PositionFound la lo) c =
     render (c\<lparr>app := (app c)\<lparr>userLocation := Some \<lparr>lat = la, lng = lo\<rparr>,
                                locationStatus := success,
                                locationInput := currentLocationLabel\<rparr>\<rparr>)"
| "fire PositionError c =
     render (c\<lparr>app := (app c)\<lparr>locationStatus := error, locationInput := [],
                                isUsingGPS := False\<rparr>\<rparr>)"
| "fire (DateChange d) c = render (c\<lparr>app := (app c)\<lparr>date := d\<rparr>\<rparr>)"
| "fire (SortChange t) c = render (c\<lparr>app := (app c)\<lparr>sortType := t\<rparr>\<rparr>)"
| "fire (FiltersChange f) c = render (c\<lparr>app := (app c)\<lparr>filters := f\<rparr>\<rparr>)"
| "fire ScrolledToResults c =
     (if shouldScrollToResults (app c) \<and> resorts (app c) \<noteq> [] \<and> searchPerformed (app c)
      then render (c\<lparr>app := (app c)\<lparr>shouldScrollToResults := False\<rparr>\<rparr>)
      else c)"
| "fire (GeocodeAnswer i r) c = answerGeocode i r c"
| "fire (FetchAnswer i r) c = answerFetch i r c"

definition run :: "event list \<Rightarrow> config \<Rightarrow> config" where
  "run es c = foldl (\<lambda>c' e. fire e c') c es"

text \<open>An event of the page: anything but a direct call of a handler.\<close>

fun pageEvent :: "event \<Rightarrow> bool" where
  "pageEvent CallHandleSearch = False"
| "pageEvent CallHandleLoadMore = False"
| "pageEvent e = True"

text \<open>The configurations that the page can reach from its first render.\<close>

inductive reachable :: "config \<Rightarrow> bool" where
  reachable_init: "reachable (initialConfig today)"
| reachable_step: "reachable c \<Longrightarrow> pageEvent e \<Longrightarrow> reachable (fire e c)"

section \<open>What the filters are meant to read\<close>

text \<open>
  The first decimal number of a string, said without a scanner: the string is some
  characters that are not digits, then the integer digits \<open>ip\<close>, then, when \<open>fp\<close> is not
  empty, a dot and the fraction digits \<open>fp\<close>, then the rest. The rest does not go on with a
  digit, and there is no fraction only when the rest does not start with a dot and a digit.
\<close>

definition spec_firstDecimal :: "jsstring \<Rightarrow> jsstring \<Rightarrow> jsstring \<Rightarrow> bool" where
  "spec_firstDecimal s ip fp =
     (\<exists>pre post.
        s = pre @ ip @ (if fp = [] then [] else dot # fp) @ post
        \<and> list_all (\<lambda>c. \<not> is_digit c) pre
        \<and> ip \<noteq> [] \<and> list_all is_digit ip \<and> list_all is_digit fp
        \<and> (post = [] \<or> \<not> is_digit (hd post))
        \<and> (fp = [] \<longrightarrow> (\<forall>c r. post = dot # c # r \<longrightarrow> \<not> is_digit c)))"

text \<open>
  The piste length of a record is \<open>v\<close>: the double nearest to the first decimal number of its
  piste-length string, and 0 when the report or the string is missing or holds no number.
\<close>

definition spec_pistesKm :: "Resort \<Rightarrow> jsnum \<Rightarrow> bool" where
  "spec_pistesKm r v =
     ((\<exists>rep p ip fp. snow_report r = Some rep \<and> pistes_km rep = Some p
          \<and> spec_firstDecimal p ip fp \<and> v = round_double (decimal_value ip fp))
      \<or> ((\<forall>rep p ip fp. snow_report r = Some rep \<and> pistes_km rep = Some p
              \<longrightarrow> \<not> spec_firstDecimal p ip fp)
          \<and> v = Fin 0))"

text \<open>
  The pattern of a lift string occurs after the prefix \<open>pre\<close>: digits, optional space, a
  slash, optional space, digits.
\<close>

definition spec_liftsOccurs :: "jsstring \<Rightarrow> jsstring \<Rightarrow> jsstring \<Rightarrow> jsstring \<Rightarrow> bool" where
  "spec_liftsOccurs s pre opn tot =
     (\<exists>w1 w2 post.
        s = pre @ opn @ w1 @ [slash] @ w2 @ tot @ post
        \<and> opn \<noteq> [] \<and> tot \<noteq> []
        \<and> list_all is_digit opn \<and> list_all is_digit tot
        \<and> list_all is_space w1 \<and> list_all is_space w2)"

definition spec_liftsPattern :: "jsstring \<Rightarrow> jsstring \<Rightarrow> jsstring \<Rightarrow> bool" where
  "spec_liftsPattern s opn tot = (\<exists>pre. spec_liftsOccurs s pre opn tot)"

text \<open>
  What is read from a lift string: the occurrence of the pattern that starts first, with
  all the digits of the total (the string does not go on with a digit).
\<close>

definition spec_liftsRead :: "jsstring \<Rightarrow> jsstring \<Rightarrow> jsstring \<Rightarrow> bool" where
  "spec_liftsRead s opn tot =
     (\<exists>pre w1 w2 post.
        s = pre @ opn @ w1 @ [slash] @ w2 @ tot @ post
        \<and> opn \<noteq> [] \<and> tot \<noteq> []
        \<and> list_all is_digit opn \<and> list_all is_digit tot
        \<and> list_all is_space w1 \<and> list_all is_space w2
        \<and> (post = [] \<or> \<not> is_digit (hd post))
        \<and> (\<forall>pre' opn' tot'. spec_liftsOccurs s pre' opn' tot' \<longrightarrow> length pre \<le> length pre'))"

text \<open>
  Enough lifts are open: the report and the lift string are there, and of the open count
  and the total read, each as a double, the quotient, as a double, exceeds the double
  nearest to 85/100.
\<close>

definition spec_enoughLifts :: "Resort \<Rightarrow> bool" where
  "spec_enoughLifts r =
     (\<exists>rep l opn tot. snow_report r = Some rep \<and> lifts rep = Some l
        \<and> spec_liftsRead l opn tot
        \<and> js_gt (js_div (round_double (real (digits_value opn)))
                         (round_double (real (digits_value tot))))
                 (round_double (85 / 100)))"

section \<open>Sample data\<close>

definition samplePeriod :: WeatherPeriod where
  "samplePeriod =
     \<lparr>time = of_ascii ''09:00'', temperature_celsius = Fin (-3), precipitation_mm = Fin 0,
      snowfall_cm = Fin 0, cloud_cover_percent = Fin 20, visibility_m = Fin 10000\<rparr>"

definition sampleWeather :: WeatherData where
  "sampleWeather =
     \<lparr>snowfall_prev_24h_cm = Fin 0, morning = samplePeriod, midday = samplePeriod,
      afternoon = samplePeriod\<rparr>"

definition sampleReport :: "jsstring option \<Rightarrow> jsstring option \<Rightarrow> SnowReport" where
  "sampleReport p l =
     \<lparr>pistes_km = p, lifts = l, snow_depth_cm = of_ascii ''80'',
      updated_on = of_ascii ''2025-01-09''\<rparr>"

definition sampleResort :: "string \<Rightarrow> jsnum option \<Rightarrow> SnowReport option \<Rightarrow> Resort" where
  "sampleResort i d rep =
     \<lparr>resort_id = of_ascii i, name = of_ascii i, location = \<lparr>lat = Fin 46, lng = Fin 7\<rparr>,
      elevation = of_ascii ''1500'', snowreport_url = [], air_distance_km = Fin 10,
      distance_km = d, duration_driving_minutes = d, duration_transit_minutes = None,
      snow_report = rep, weather = sampleWeather, image_url = []\<rparr>"

definition onlyMinPistes :: Filters where
  "onlyMinPistes = \<lparr>goodWeather = False, freshSnow = False, liftsOpen = False, minPistes = True\<rparr>"

definition onlyLiftsOpen :: Filters where
  "onlyLiftsOpen = \<lparr>goodWeather = False, freshSnow = False, liftsOpen = True, minPistes = False\<rparr>"

definition liftsAndPistes :: Filters where
  "liftsAndPistes = \<lparr>goodWeather = False, freshSnow = False, liftsOpen = True, minPistes = True\<rparr>"

definition noFilters :: Filters where
  "noFilters = \<lparr>goodWeather = False, freshSnow = False, liftsOpen = False, minPistes = False\<rparr>"

text \<open>Records with a piste length and a lift string.\<close>

definition pistes45 :: Resort where
  "pistes45 =
     sampleResort ''p'' None (Some (sampleReport (Some (of_ascii ''45km'')) (Some (of_ascii ''8/10''))))"

definition pistes18 :: Resort where
  "pistes18 =
     sampleResort ''q'' None (Some (sampleReport (Some (of_ascii ''18 km'')) (Some (of_ascii ''9 / 10''))))"

definition pistesEmpty :: Resort where
  "pistesEmpty = sampleResort ''e'' None (Some (sampleReport (Some []) None))"

definition noReport :: Resort where
  "noReport = sampleResort ''m'' None None"

definition pistesNines :: Resort where
  "pistesNines =
     sampleResort ''n'' None (Some (sampleReport (Some (of_ascii ''19.999999999999999'')) None))"

definition liftsWords :: Resort where
  "liftsWords = sampleResort ''w'' None (Some (sampleReport None (Some (of_ascii ''all open''))))"

definition liftsNearly :: Resort where
  "liftsNearly =
     sampleResort ''l'' None
       (Some (sampleReport None (Some (of_ascii ''7650000000000006/9000000000000007''))))"

definition resortA :: Resort where
  "resortA = sampleResort ''a'' (Some (Fin 30)) None"

definition resortB :: Resort where
  "resortB = sampleResort ''b'' None None"

definition resortC :: Resort where
  "resortC = sampleResort ''c'' (Some (Fin 10)) None"

definition resortD :: Resort where
  "resortD = sampleResort ''d'' (Some (Fin 10)) None"

definition nearByAir :: Resort where
  "nearByAir = (sampleResort ''n'' (Some (Fin 30)) None)\<lparr>air_distance_km := Fin 5\<rparr>"

definition farByAir :: Resort where
  "farByAir = (sampleResort ''f'' (Some (Fin 20)) None)\<lparr>air_distance_km := Fin 10\<rparr>"

definition sampleStore :: store where
  "sampleStore = \<lparr>cells = (\<lambda>a. None)(0 \<mapsto> [resortA, resortB, resortC]), next_free = 1\<rparr>"

section \<open>One call at a time\<close>

text \<open>
  A suspended call fits the state when the page it asks for, or will ask for, is the first
  page for a new search and the page after the current one otherwise, and a fetch in flight
  is the request sent last. A configuration has one call at most when nothing was rejected
  and either nothing is pending and nothing is loading, or one call is pending, the
  indicator is on and the call fits the state. The observer is in step when the render it
  took its functions from had the indicator, has-more and the page counter as they are now.
\<close>

fun taskFits :: "task \<Rightarrow> AppState \<Rightarrow> bool" where
  "taskFits (AwaitGeocode1 isNewSearch snap) s = (page snap = page s)"
| "taskFits (AwaitGeocode2 isNewSearch snap) s = (page snap = page s)"
| "taskFits (AwaitFetch isNewSearch rq) s =
     (rq_page rq = (if isNewSearch then 1 else page s + 1)
      \<and> requests s \<noteq> [] \<and> last (requests s) = rq)"

definition oneCall :: "config \<Rightarrow> bool" where
  "oneCall c =
     (unhandled c = []
      \<and> (case pending c of
            [] \<Rightarrow> \<not> loading (app c)
          | [t] \<Rightarrow> loading (app c) \<and> taskFits t (app c)
          | t # u # ts \<Rightarrow> False))"

definition inStep :: "config \<Rightarrow> bool" where
  "inStep c =
     (loading (closure c) = loading (app c) \<and> hasMore (closure c) = hasMore (app c)
      \<and> page (closure c) = page (app c))"

section \<open>Runs of whole calls\<close>

text \<open>
  One call of \<^verbatim>\<open>handleLoadMore\<close>, resp. \<^verbatim>\<open>handleSearch\<close>, whose fetch is answered at once with
  the decoded response \<open>d\<close>; \<open>None\<close> when the call sends no fetch.
\<close>

definition okResponse :: "ResortsResponse \<Rightarrow> http_outcome" where
  "okResponse d = HttpResponse True (of_ascii ''OK'') (Some d)"

definition loadMoreOk :: "ResortsResponse \<Rightarrow> AppState \<Rightarrow> AppState option" where
  "loadMoreOk d s =
     (case handleLoadMore s of
        (s1, Some (AwaitFetch isNewSearch rq)) \<Rightarrow>
          (case fetched isNewSearch rq (okResponse d) s1 of
             Inr s2 \<Rightarrow> Some s2
           | Inl e \<Rightarrow> None)
      | (s1, other) \<Rightarrow> None)"

fun loadMoreAll :: "ResortsResponse list \<Rightarrow> AppState \<Rightarrow> AppState option" where
  "loadMoreAll [] s = Some s"
| "loadMoreAll (d # ds) s =
     (case loadMoreOk d s of
        None \<Rightarrow> None
      | Some s' \<Rightarrow> loadMoreAll ds s')"

definition searchOk :: "ResortsResponse \<Rightarrow> AppState \<Rightarrow> AppState option" where
  "searchOk d s =
     (case handleSearch s of
        (s1, Some (AwaitFetch isNewSearch rq)) \<Rightarrow>
          (case fetched isNewSearch rq (okResponse d) s1 of
             Inr s2 \<Rightarrow> Some s2
           | Inl e \<Rightarrow> None)
      | (s1, other) \<Rightarrow> None)"

section \<open>Sample sessions\<close>

definition samplePage :: "nat \<Rightarrow> bool \<Rightarrow> Resort list \<Rightarrow> ResortsResponse" where
  "samplePage n hm rs =
     \<lparr>resp_page = n, page_size = 15, total_resorts = 32, has_more = hm, resp_resorts = rs\<rparr>"

definition day1 :: jsstring where
  "day1 = of_ascii ''2025-01-10''"

definition day2 :: jsstring where
  "day2 = of_ascii ''2025-01-11''"

text \<open>Pick Bern from the suggestions, search, and receive the first page.\<close>

definition firstSearch :: "event list" where
  "firstSearch =
     [SuggestionClick (of_ascii ''Bern, Switzerland'') (Fin 46) (Fin 7),
      ClickSearch,
      FetchAnswer 0 (okResponse (samplePage 1 True [resortA]))]"

text \<open>After the first search the user asks for more; the second page is in flight.\<close>

definition secondPageInFlight :: "event list" where
  "secondPageInFlight = firstSearch @ [ClickLoadMore]"

text \<open>
  Scenario E with the handlers called directly: the second page of the first session is in
  flight, the user picks Chur and another day and a new search starts, and its first page
  arrives. Then the page of the first session arrives.
\<close>

definition newSearchArrived :: "event list" where
  "newSearchArrived =
     firstSearch @
     [CallHandleLoadMore,
      SuggestionClick (of_ascii ''Chur, Switzerland'') (Fin 47) (Fin 9),
      DateChange day2,
      CallHandleSearch,
      FetchAnswer 1 (okResponse (samplePage 1 False [resortC]))]"

definition staleArrival :: "event list" where
  "staleArrival = newSearchArrived @ [FetchAnswer 0 (okResponse (samplePage 2 False [resortB]))]"

text \<open>A fetch of the second page fails and the user asks for more again.\<close>

definition retryAfterFailure :: "event list" where
  "retryAfterFailure =
     firstSearch @ [ClickLoadMore, FetchAnswer 0 NetworkFailure, ClickLoadMore]"

text \<open>Two pages are loaded; then the user picks Chur and another day and searches.\<close>

definition secondSearchStarted :: "event list" where
  "secondSearchStarted =
     firstSearch @
     [ClickLoadMore,
      FetchAnswer 0 (okResponse (samplePage 2 True [resortB])),
      SuggestionClick (of_ascii ''Chur, Switzerland'') (Fin 47) (Fin 9),
      DateChange day2,
      ClickSearch]"

text \<open>
  Two records of the first page are shown; the user picks Chur and another day, does not
  search, and scrolls until the watched item comes into view, or clicks the button instead.
\<close>

definition twoShown :: "event list" where
  "twoShown =
     [SuggestionClick (of_ascii ''Bern, Switzerland'') (Fin 46) (Fin 7),
      ClickSearch,
      FetchAnswer 0 (okResponse (samplePage 1 True [resortA, resortB])),
      SuggestionClick (of_ascii ''Chur, Switzerland'') (Fin 47) (Fin 9),
      DateChange day2]"

definition observerLoadsMore :: "event list" where
  "observerLoadsMore = twoShown @ [SentinelIntersects]"

definition buttonLoadsMore :: "event list" where
  "buttonLoadsMore = twoShown @ [ClickLoadMore]"

text \<open>The user types a place that the geocoding service does not know, and searches.\<close>

definition unknownPlace :: "event list" where
  "unknownPlace = [InputChange (of_ascii ''Nowhereville123xyz''), ClickSearch]"

section \<open>Properties of rounding\<close>

lemma bits_0: "bits 0 = 0"
  by (simp add: bits.simps)

lemma bits_pos: "0 < n \<Longrightarrow> 0 < bits n"
  by (subst bits.simps) simp

lemma bits_lower: "0 < n \<Longrightarrow> 2 ^ (bits n - 1) \<le> n"
proof (induction n rule: bits.induct)
  case (1 n)
  show ?case
  proof (cases "n div 2 = 0")
    case True
    with "1.prems" have "bits n = Suc 0"
      by (subst bits.simps) (simp add: bits_0)
    with "1.prems" show ?thesis by simp
  next
    case False
    then have h: "0 < n div 2" by simp
    from "1.IH" [OF _ h] "1.prems" have ih: "2 ^ (bits (n div 2) - 1) \<le> n div 2"
      by simp
    from bits_pos [OF h] obtain k where k: "bits (n div 2) = Suc k"
      by (cases "bits (n div 2)") simp_all
    from "1.prems" have "bits n = Suc (bits (n div 2))"
      by (subst bits.simps) simp
    with k ih have "2 ^ (bits n - 1) \<le> 2 * (n div 2)"
      by simp
    also have "\<dots> \<le> n" by simp
    finally show ?thesis .
  qed
qed

lemma pow2_pos: "0 < pow2 e"
  by (simp add: pow2_def)

lemma round_half_even_floor: "\<lfloor>y\<rfloor> \<le> round_half_even y"
  by (simp add: round_half_even_def Let_def)

lemma round_magnitude_not_NaN: "round_magnitude x \<noteq> NaN"
  by (simp add: round_magnitude_def Let_def)

lemma round_double_not_NaN: "round_double x \<noteq> NaN"
  using round_magnitude_not_NaN [of x] round_magnitude_not_NaN [of "- x"]
  by (cases "round_magnitude (- x)") (simp_all add: round_double_def js_neg_def)

lemma round_double_0: "round_double 0 = Fin 0"
  by (simp add: round_double_def round_magnitude_def)

text \<open>A positive whole number rounds to a positive double or to infinity.\<close>

lemma round_double_nat_pos:
  assumes "0 < n"
  shows "round_double (real n) = PosInf \<or> (\<exists>v. 0 < v \<and> round_double (real n) = Fin v)"
proof -
  let ?x = "real n"
  let ?e = "double_exponent ?x"
  let ?q = "pow2 (?e - 52)"
  from assms have x1: "1 \<le> ?x" by simp
  have e: "?e = int (bits n) - 1"
    using x1 bits_pos [OF assms] by (simp add: double_exponent_def)
  have q: "?q \<le> ?x"
  proof (cases "52 \<le> ?e")
    case True
    then have "?q = 2 ^ nat (?e - 52)"
      by (simp add: pow2_def)
    also have "\<dots> \<le> (2::real) ^ (bits n - 1)"
      using e by (intro power_increasing) auto
    also have "\<dots> \<le> ?x"
      using bits_lower [OF assms] by (metis of_nat_le_iff of_nat_numeral of_nat_power)
    finally show ?thesis .
  next
    case False
    then have "?q = 1 / 2 ^ nat (52 - ?e)"
      by (simp add: pow2_def)
    also have "\<dots> \<le> 1"
      by simp
    finally show ?thesis
      using x1 by simp
  qed
  have qp: "0 < ?q" by (rule pow2_pos)
  from q qp have "1 \<le> ?x / ?q"
    by (simp add: field_simps)
  then have f: "1 \<le> \<lfloor>?x / ?q\<rfloor>"
    by (simp add: le_floor_iff)
  from f round_half_even_floor [of "?x / ?q"] have m: "1 \<le> round_half_even (?x / ?q)"
    by (rule order_trans)
  then have "0 < of_int (round_half_even (?x / ?q)) * ?q"
    using qp by simp
  with assms show ?thesis
    by (simp add: round_double_def round_magnitude_def Let_def)
qed

lemmas double_eval =
  round_double_def round_magnitude_def double_exponent_def pow2_def round_half_even_def
  js_neg_def bits.simps Let_def

text \<open>
  The rounding on some numbers whose doubles are known: a tenth and three tenths, numbers
  just above \<open>2\<close> to the \<open>53\<close>, which lie halfway between two doubles, and a number too
  large for a double.
\<close>

lemma round_double_samples:
  "round_double (1 / 10) = Fin (3602879701896397 / 36028797018963968)"
  "round_double (3 / 10) = Fin (5404319552844595 / 18014398509481984)"
  "round_double 9007199254740993 = Fin 9007199254740992"
  "round_double 9007199254740995 = Fin 9007199254740996"
  "round_double (- 9007199254740993) = Fin (- 9007199254740992)"
  "round_double (10 ^ 309) = PosInf"
  by (simp_all add: double_eval)

section \<open>Properties of the parsers\<close>

lemma space_not_digit: "is_space c \<Longrightarrow> \<not> is_digit c"
  by (auto simp: is_space_def is_digit_def)

lemma slash_not_digit: "\<not> is_digit slash"
  by (simp add: is_digit_def slash_def)

lemma slash_not_space: "\<not> is_space slash"
  by (simp add: is_space_def slash_def)

lemma dot_not_digit: "\<not> is_digit dot"
  by (simp add: is_digit_def dot_def)

lemma takeWhile_all: "list_all P xs \<Longrightarrow> takeWhile P xs = xs"
  by (induction xs) auto

lemma dropWhile_all: "list_all P xs \<Longrightarrow> dropWhile P xs = []"
  by (induction xs) auto

lemma takeWhile_run: "list_all P xs \<Longrightarrow> takeWhile P (xs @ ys) = xs @ takeWhile P ys"
  by (induction xs) auto

lemma dropWhile_run: "list_all P xs \<Longrightarrow> dropWhile P (xs @ ys) = dropWhile P ys"
  by (induction xs) auto

lemma list_all_takeWhile: "list_all P (takeWhile P xs)"
  by (induction xs) auto

lemma takeWhile_stop: "ys = [] \<or> \<not> P (hd ys) \<Longrightarrow> takeWhile P ys = []"
  by (cases ys) auto

lemma dropWhile_stop: "ys = [] \<or> \<not> P (hd ys) \<Longrightarrow> dropWhile P ys = ys"
  by (cases ys) auto

lemma dropWhile_stops: "dropWhile P xs = [] \<or> \<not> P (hd (dropWhile P xs))"
  using hd_dropWhile [of P xs] by blast

lemma digits_value_Nil: "digits_value [] = 0"
  by (simp add: digits_value_def)

lemma decimal_value_int: "decimal_value ip [] = real (digits_value ip)"
  by (simp add: decimal_value_def digits_value_Nil)

subsection \<open>The piste length\<close>

lemma match_pistes_at_None: "match_pistes_at (c # cs) = None \<longleftrightarrow> \<not> is_digit c"
  by (auto simp: match_pistes_at_def Let_def split: list.splits)

lemma match_pistes_skip:
  "match_pistes s =
     (if dropWhile (\<lambda>c. \<not> is_digit c) s = [] then None
      else match_pistes_at (dropWhile (\<lambda>c. \<not> is_digit c) s))"
proof (induction s)
  case Nil
  show ?case by simp
next
  case (Cons c cs)
  show ?case
  proof (cases "is_digit c")
    case True
    then have "match_pistes_at (c # cs) \<noteq> None"
      by (simp add: match_pistes_at_None)
    then obtain g where "match_pistes_at (c # cs) = Some g"
      by blast
    with True show ?thesis by simp
  next
    case False
    then have "match_pistes_at (c # cs) = None"
      by (simp add: match_pistes_at_None)
    with False Cons show ?thesis by simp
  qed
qed

lemma parseFloat_int:
  assumes "ip \<noteq> []" and "list_all is_digit ip"
  shows "parseFloat ip = round_double (decimal_value ip [])"
  using assms by (simp add: parseFloat_def Let_def takeWhile_all dropWhile_all)

lemma parseFloat_frac:
  assumes "ip \<noteq> []" and "list_all is_digit ip" and "list_all is_digit fp"
  shows "parseFloat (ip @ dot # fp) = round_double (decimal_value ip fp)"
  using assms dot_not_digit
  by (simp add: parseFloat_def Let_def takeWhile_run dropWhile_run takeWhile_all)

text \<open>The capture, as a function of the two runs of digits.\<close>

lemma parseFloat_capture:
  assumes "ip \<noteq> []" and "list_all is_digit ip" and "list_all is_digit fp"
  shows "parseFloat (ip @ (if fp = [] then [] else dot # fp)) = round_double (decimal_value ip fp)"
  using assms by (simp add: parseFloat_int parseFloat_frac)

lemma match_pistes_at_spec:
  assumes "ip \<noteq> []" and "list_all is_digit ip" and "list_all is_digit fp"
    and "post = [] \<or> \<not> is_digit (hd post)"
    and "fp = [] \<longrightarrow> (\<forall>c r. post = dot # c # r \<longrightarrow> \<not> is_digit c)"
  shows "match_pistes_at (ip @ (if fp = [] then [] else dot # fp) @ post)
         = Some (ip @ (if fp = [] then [] else dot # fp))"
proof (cases "fp = []")
  case True
  have t: "takeWhile is_digit (ip @ post) = ip"
    using assms(2,4) by (simp add: takeWhile_run takeWhile_stop)
  have d: "dropWhile is_digit (ip @ post) = post"
    using assms(2,4) by (simp add: dropWhile_run dropWhile_stop)
  have n: "\<not> (\<exists>r. post = dot # r \<and> takeWhile is_digit r \<noteq> [])"
  proof
    assume "\<exists>r. post = dot # r \<and> takeWhile is_digit r \<noteq> []"
    then obtain r where p: "post = dot # r" and "takeWhile is_digit r \<noteq> []"
      by blast
    then obtain c' r' where "r = c' # r'" and "is_digit c'"
      by (cases r) (auto split: if_splits)
    with p assms(5) True show False
      by simp
  qed
  have "match_pistes_at (ip @ post) = Some ip"
    unfolding match_pistes_at_def Let_def t d
    using assms(1) n by (cases post) (auto simp del: takeWhile_eq_Nil_iff)
  with True show ?thesis by simp
next
  case False
  have t: "takeWhile is_digit (ip @ dot # fp @ post) = ip"
    using assms(2) dot_not_digit by (simp add: takeWhile_run)
  have d: "dropWhile is_digit (ip @ dot # fp @ post) = dot # fp @ post"
    using assms(2) dot_not_digit by (simp add: dropWhile_run)
  have f: "takeWhile is_digit (fp @ post) = fp"
    using assms(3,4) by (simp add: takeWhile_run takeWhile_stop)
  from False assms(1) t d f show ?thesis
    by (simp add: match_pistes_at_def Let_def)
qed

lemma dropWhile_not_digit_run:
  assumes "list_all (\<lambda>c. \<not> is_digit c) pre" and "ip \<noteq> []" and "list_all is_digit ip"
  shows "dropWhile (\<lambda>c. \<not> is_digit c) (pre @ ip @ rest) = ip @ rest"
proof -
  from assms(2,3) obtain c cs where "ip = c # cs" and "is_digit c"
    by (cases ip) auto
  then have "dropWhile (\<lambda>c. \<not> is_digit c) (ip @ rest) = ip @ rest"
    by simp
  with assms(1) show ?thesis
    by (simp add: dropWhile_run)
qed

lemma match_pistes_of_spec:
  assumes "spec_firstDecimal s ip fp"
  shows "match_pistes s = Some (ip @ (if fp = [] then [] else dot # fp))"
proof -
  from assms obtain pre post where
    s: "s = pre @ ip @ (if fp = [] then [] else dot # fp) @ post"
    and pre: "list_all (\<lambda>c. \<not> is_digit c) pre"
    and ip: "ip \<noteq> []" "list_all is_digit ip" and fp: "list_all is_digit fp"
    and post: "post = [] \<or> \<not> is_digit (hd post)"
      "fp = [] \<longrightarrow> (\<forall>c r. post = dot # c # r \<longrightarrow> \<not> is_digit c)"
    unfolding spec_firstDecimal_def by blast
  have "dropWhile (\<lambda>c. \<not> is_digit c) s = ip @ (if fp = [] then [] else dot # fp) @ post"
    unfolding s by (rule dropWhile_not_digit_run [OF pre ip])
  moreover have "ip @ (if fp = [] then [] else dot # fp) @ post \<noteq> []"
    using ip(1) by simp
  ultimately show ?thesis
    using match_pistes_at_spec [OF ip fp post] by (simp add: match_pistes_skip)
qed

lemma spec_of_match_pistes:
  assumes "match_pistes s = Some g"
  shows "\<exists>ip fp. spec_firstDecimal s ip fp \<and> g = ip @ (if fp = [] then [] else dot # fp)"
proof -
  define pre where "pre = takeWhile (\<lambda>c. \<not> is_digit c) s"
  define t where "t = dropWhile (\<lambda>c. \<not> is_digit c) s"
  define ip where "ip = takeWhile is_digit t"
  define rest where "rest = dropWhile is_digit t"
  from assms have tne: "t \<noteq> []" and g: "match_pistes_at t = Some g"
    unfolding t_def by (simp_all add: match_pistes_skip split: if_splits)
  have s1: "s = pre @ t"
    unfolding pre_def t_def by simp
  have t1: "t = ip @ rest"
    unfolding ip_def rest_def by simp
  have pre: "list_all (\<lambda>c. \<not> is_digit c) pre"
    unfolding pre_def by (rule list_all_takeWhile)
  have "is_digit (hd t)"
    using tne hd_dropWhile [of "\<lambda>c. \<not> is_digit c" s] unfolding t_def by simp
  with tne have ipne: "ip \<noteq> []"
    unfolding ip_def by (cases t) simp_all
  have ip: "list_all is_digit ip"
    unfolding ip_def by (rule list_all_takeWhile)
  have stop: "rest = [] \<or> \<not> is_digit (hd rest)"
    unfolding rest_def by (rule dropWhile_stops)
  have m: "match_pistes_at t =
           (case rest of
              [] \<Rightarrow> Some ip
            | c # r \<Rightarrow>
                if c = dot \<and> takeWhile is_digit r \<noteq> []
                then Some (ip @ [dot] @ takeWhile is_digit r)
                else Some ip)"
    using ipne unfolding match_pistes_at_def Let_def ip_def rest_def by simp
  show ?thesis
  proof (cases "\<exists>r. rest = dot # r \<and> takeWhile is_digit r \<noteq> []")
    case True
    then obtain r where r: "rest = dot # r" and fne: "takeWhile is_digit r \<noteq> []"
      by blast
    define fp where "fp = takeWhile is_digit r"
    define post where "post = dropWhile is_digit r"
    have r1: "r = fp @ post"
      unfolding fp_def post_def by simp
    from fne have fpne: "fp \<noteq> []"
      unfolding fp_def .
    from g m r fne have gv: "g = ip @ dot # fp"
      unfolding fp_def by simp
    have dec: "s = pre @ ip @ (if fp = [] then [] else dot # fp) @ post"
      using fpne by (simp add: s1 t1 r r1 [symmetric])
    have fpd: "list_all is_digit fp"
      unfolding fp_def by (rule list_all_takeWhile)
    have pstop: "post = [] \<or> \<not> is_digit (hd post)"
      unfolding post_def by (rule dropWhile_stops)
    have "spec_firstDecimal s ip fp"
      unfolding spec_firstDecimal_def
      apply (rule exI [of _ pre])
      apply (rule exI [of _ post])
      using dec pre ipne ip fpd pstop fpne
      apply simp
      done
    with gv fpne show ?thesis
      by auto
  next
    case False
    have gv: "g = ip"
    proof (cases rest)
      case Nil
      with g m show ?thesis by simp
    next
      case (Cons c r)
      with False have "\<not> (c = dot \<and> takeWhile is_digit r \<noteq> [])"
        by simp
      with g m Cons show ?thesis
        by simp
    qed
    have nofrac: "\<forall>c r. rest = dot # c # r \<longrightarrow> \<not> is_digit c"
      using False by auto
    have dec: "s = pre @ ip @ rest"
      by (simp add: s1 t1 [symmetric])
    have "spec_firstDecimal s ip []"
      unfolding spec_firstDecimal_def
      apply (rule exI [of _ pre])
      apply (rule exI [of _ rest])
      using dec pre ipne ip stop nofrac
      apply simp
      done
    with gv show ?thesis
      by auto
  qed
qed

lemma getPistesKm_of_spec:
  assumes "snow_report r = Some rep" and "pistes_km rep = Some p" and "spec_firstDecimal p ip fp"
  shows "getPistesKm r = round_double (decimal_value ip fp)"
proof -
  from assms(3) have ip: "ip \<noteq> []" "list_all is_digit ip" "list_all is_digit fp"
    unfolding spec_firstDecimal_def by blast+
  from assms(3) have "p \<noteq> []"
    unfolding spec_firstDecimal_def using ip(1) by auto
  with assms(1,2) match_pistes_of_spec [OF assms(3)] parseFloat_capture [OF ip] show ?thesis
    by (simp add: getPistesKm_def)
qed

lemma getPistesKm_no_number:
  assumes "\<forall>rep p ip fp. snow_report r = Some rep \<and> pistes_km rep = Some p
             \<longrightarrow> \<not> spec_firstDecimal p ip fp"
  shows "getPistesKm r = Fin 0"
proof (cases "snow_report r")
  case None
  then show ?thesis by (simp add: getPistesKm_def)
next
  case (Some rep)
  note rep = this
  show ?thesis
  proof (cases "pistes_km rep")
    case None
    with rep show ?thesis by (simp add: getPistesKm_def)
  next
    case (Some p)
    have "match_pistes p = None"
    proof (rule ccontr)
      assume "match_pistes p \<noteq> None"
      then obtain g where "match_pistes p = Some g" by blast
      from spec_of_match_pistes [OF this] assms rep Some show False
        by blast
    qed
    with rep Some show ?thesis
      by (simp add: getPistesKm_def)
  qed
qed

lemma getPistesKm_spec: "spec_pistesKm r v \<longleftrightarrow> getPistesKm r = v"
proof
  assume "spec_pistesKm r v"
  then show "getPistesKm r = v"
    unfolding spec_pistesKm_def
    using getPistesKm_of_spec getPistesKm_no_number by blast
next
  assume v: "getPistesKm r = v"
  show "spec_pistesKm r v"
  proof (cases "\<exists>rep p ip fp. snow_report r = Some rep \<and> pistes_km rep = Some p
                  \<and> spec_firstDecimal p ip fp")
    case True
    then obtain rep p ip fp where h: "snow_report r = Some rep" "pistes_km rep = Some p"
      "spec_firstDecimal p ip fp"
      by blast
    from getPistesKm_of_spec [OF h] v have "v = round_double (decimal_value ip fp)"
      by simp
    with h show ?thesis
      unfolding spec_pistesKm_def by blast
  next
    case False
    then have n: "\<forall>rep p ip fp. snow_report r = Some rep \<and> pistes_km rep = Some p
             \<longrightarrow> \<not> spec_firstDecimal p ip fp"
      by blast
    from getPistesKm_no_number [OF n] v have "v = Fin 0"
      by simp
    with n show ?thesis
      unfolding spec_pistesKm_def by blast
  qed
qed

lemma getPistesKm_not_NaN: "getPistesKm r \<noteq> NaN"
proof -
  have "spec_pistesKm r (getPistesKm r)"
    by (simp add: getPistesKm_spec)
  then show ?thesis
    unfolding spec_pistesKm_def using round_double_not_NaN by auto
qed

text \<open>The callback of the filter, test by test.\<close>

lemma keepResort_iff:
  "keepResort f r \<longleftrightarrow>
     (goodWeather f \<longrightarrow> isGoodWeather r)
     \<and> (freshSnow f \<longrightarrow> \<not> js_le (snowfall_prev_24h_cm (weather r)) (Fin 0))
     \<and> (liftsOpen f \<longrightarrow> hasEnoughLiftsOpen r)
     \<and> (minPistes f \<longrightarrow> \<not> js_lt (getPistesKm r) (Fin 20))"
  by (auto simp: keepResort_def)

lemma enough_pistes_spec:
  "\<not> js_lt (getPistesKm r) (Fin 20) \<longleftrightarrow> (\<exists>v. spec_pistesKm r v \<and> js_le (Fin 20) v)"
  using getPistesKm_not_NaN [of r] by (auto simp: getPistesKm_spec js_le_def)

lemmas sample_eval =
  sampleResort_def sampleReport_def sampleWeather_def samplePeriod_def of_ascii_def
  is_digit_def is_space_def slash_def dot_def digits_value_def decimal_value_def

lemma sample_pistes:
  "getPistesKm pistes45 = Fin 45" "getPistesKm pistes18 = Fin 18"
  "getPistesKm pistesEmpty = Fin 0" "getPistesKm noReport = Fin 0"
  by (simp_all add: getPistesKm_def match_pistes_at_def parseFloat_def pistes45_def pistes18_def
        pistesEmpty_def noReport_def sample_eval double_eval)

lemma sample_lifts:
  "\<not> hasEnoughLiftsOpen pistes45" "hasEnoughLiftsOpen pistes18"
  "\<not> hasEnoughLiftsOpen pistesEmpty" "\<not> hasEnoughLiftsOpen noReport"
  by (simp_all add: hasEnoughLiftsOpen_def match_lifts_at_def parseInt_def js_gt_def
        pistes45_def pistes18_def pistesEmpty_def noReport_def sample_eval double_eval)

text \<open>
  C7. Whatever the other toggles, a record is kept exactly when it passes the test of every
  toggle that is on; the test of the minimum-piste toggle is that the piste length is at
  least 20. The piste length is the first decimal number of the piste-length string, as the
  double that \<^verbatim>\<open>parseFloat\<close> reads it to be, and 0 when the report or the string is missing or
  holds no number. The code reads exactly that number.
\<close>

theorem minPistes_filter_spec:
  "(keepResort f r \<longleftrightarrow>
      (goodWeather f \<longrightarrow> isGoodWeather r)
      \<and> (freshSnow f \<longrightarrow> \<not> js_le (snowfall_prev_24h_cm (weather r)) (Fin 0))
      \<and> (liftsOpen f \<longrightarrow> hasEnoughLiftsOpen r)
      \<and> (minPistes f \<longrightarrow> (\<exists>v. spec_pistesKm r v \<and> js_le (Fin 20) v)))
   \<and> (spec_pistesKm r v \<longleftrightarrow> getPistesKm r = v)"
  by (simp only: keepResort_iff enough_pistes_spec getPistesKm_spec)

theorem minPistes_filter_spec_witness:
  "spec_pistesKm pistes45 (Fin 45) \<and> keepResort onlyMinPistes pistes45
   \<and> \<not> keepResort liftsAndPistes pistes45
   \<and> spec_pistesKm pistes18 (Fin 18) \<and> \<not> keepResort onlyMinPistes pistes18
   \<and> \<not> keepResort liftsAndPistes pistes18
   \<and> spec_pistesKm pistesEmpty (Fin 0) \<and> \<not> keepResort onlyMinPistes pistesEmpty
   \<and> spec_pistesKm noReport (Fin 0) \<and> \<not> keepResort onlyMinPistes noReport"
proof -
  note t = minPistes_filter_spec
  have s: "spec_pistesKm pistes45 (Fin 45)" "spec_pistesKm pistes18 (Fin 18)"
    "spec_pistesKm pistesEmpty (Fin 0)" "spec_pistesKm noReport (Fin 0)"
    by (simp_all add: t [THEN conjunct2] sample_pistes)
  have u: "spec_pistesKm r v = (getPistesKm r = v)" for r v
    by (simp only: t [THEN conjunct2])
  have a: "keepResort onlyMinPistes pistes45"
    using s(1) by (subst t [THEN conjunct1]) (auto simp: onlyMinPistes_def js_le_def)
  have b: "\<not> keepResort liftsAndPistes pistes45"
    using sample_lifts(1) by (subst t [THEN conjunct1]) (simp add: liftsAndPistes_def)
  have c: "\<not> keepResort onlyMinPistes pistes18"
    by (subst t [THEN conjunct1]) (simp add: u onlyMinPistes_def sample_pistes js_le_def)
  have d: "\<not> keepResort liftsAndPistes pistes18"
    by (subst t [THEN conjunct1]) (simp add: u liftsAndPistes_def sample_pistes js_le_def)
  have e: "\<not> keepResort onlyMinPistes pistesEmpty"
    by (subst t [THEN conjunct1]) (simp add: u onlyMinPistes_def sample_pistes js_le_def)
  have f: "\<not> keepResort onlyMinPistes noReport"
    by (subst t [THEN conjunct1]) (simp add: u onlyMinPistes_def sample_pistes js_le_def)
  from s a b c d e f show ?thesis by blast
qed

text \<open>
  The number that decides is a double: the numeral 19.999999999999999 is read as 20, the
  double nearest to it, and the record is kept.
\<close>

lemma just_below_twenty_is_kept:
  "spec_firstDecimal (of_ascii ''19.999999999999999'') (of_ascii ''19'')
     (of_ascii ''999999999999999'')
   \<and> decimal_value (of_ascii ''19'') (of_ascii ''999999999999999'') < 20
   \<and> getPistesKm pistesNines = Fin 20
   \<and> keepResort onlyMinPistes pistesNines"
proof -
  have a: "spec_firstDecimal (of_ascii ''19.999999999999999'') (of_ascii ''19'')
     (of_ascii ''999999999999999'')"
    unfolding spec_firstDecimal_def
    by (rule exI [of _ "[]"], rule exI [of _ "[]"]) (simp add: of_ascii_def is_digit_def dot_def)
  have b: "decimal_value (of_ascii ''19'') (of_ascii ''999999999999999'') < 20"
    by (simp add: sample_eval)
  have c: "getPistesKm pistesNines = Fin 20"
    by (simp add: getPistesKm_def match_pistes_at_def parseFloat_def pistesNines_def
          sample_eval double_eval)
  have d: "keepResort onlyMinPistes pistesNines"
    by (simp add: keepResort_def onlyMinPistes_def c)
  from a b c d show ?thesis by blast
qed

text \<open>The lift pattern.\<close>

lemma match_lifts_at_sound:
  assumes "match_lifts_at s = Some (opn, tot)"
  shows "\<exists>w1 w2 post.
           s = opn @ w1 @ [slash] @ w2 @ tot @ post
           \<and> opn \<noteq> [] \<and> tot \<noteq> []
           \<and> list_all is_digit opn \<and> list_all is_digit tot
           \<and> list_all is_space w1 \<and> list_all is_space w2
           \<and> (post = [] \<or> \<not> is_digit (hd post))"
proof -
  define rest where "rest = dropWhile is_digit s"
  from assms obtain r where
    o: "opn = takeWhile is_digit s" and one: "opn \<noteq> []"
    and r: "dropWhile is_space rest = slash # r"
    and t: "tot = takeWhile is_digit (dropWhile is_space r)" and tne: "tot \<noteq> []"
    unfolding rest_def
    by (auto simp: match_lifts_at_def Let_def split: list.splits if_splits)
  define w1 where "w1 = takeWhile is_space rest"
  define w2 where "w2 = takeWhile is_space r"
  define post where "post = dropWhile is_digit (dropWhile is_space r)"
  have a: "s = opn @ rest"
    unfolding o rest_def by simp
  have b: "rest = w1 @ slash # r"
    unfolding w1_def r [symmetric] by simp
  have c: "r = w2 @ tot @ post"
    unfolding w2_def t post_def by simp
  have s: "s = opn @ w1 @ [slash] @ w2 @ tot @ post"
    by (simp add: a b c [symmetric])
  have d: "list_all is_digit opn" "list_all is_digit tot"
    unfolding o t by (rule list_all_takeWhile)+
  have w: "list_all is_space w1" "list_all is_space w2"
    unfolding w1_def w2_def by (rule list_all_takeWhile)+
  have e: "post = [] \<or> \<not> is_digit (hd post)"
    unfolding post_def by (rule dropWhile_stops)
  from s one tne d w e show ?thesis by blast
qed

lemma takeWhile_digit_spaces:
  "list_all is_space w \<Longrightarrow> takeWhile is_digit (w @ slash # x) = []"
  by (cases w) (simp_all add: slash_not_digit space_not_digit)

lemma dropWhile_digit_spaces:
  "list_all is_space w \<Longrightarrow> dropWhile is_digit (w @ slash # x) = w @ slash # x"
  by (cases w) (simp_all add: slash_not_digit space_not_digit)

lemma dropWhile_space_digits:
  "tot \<noteq> [] \<Longrightarrow> list_all is_digit tot \<Longrightarrow> dropWhile is_space (tot @ x) = tot @ x"
  using space_not_digit by (cases tot) auto

lemma match_lifts_at_complete:
  assumes "opn \<noteq> []" and "tot \<noteq> []" and "list_all is_digit opn" and "list_all is_digit tot"
    and "list_all is_space w1" and "list_all is_space w2"
  shows "match_lifts_at (opn @ w1 @ [slash] @ w2 @ tot @ post)
         = Some (opn, tot @ takeWhile is_digit post)"
proof -
  let ?s = "opn @ w1 @ [slash] @ w2 @ tot @ post"
  have a: "takeWhile is_digit ?s = opn"
    using assms(3,5) by (simp add: takeWhile_run takeWhile_digit_spaces)
  have b: "dropWhile is_digit ?s = w1 @ slash # w2 @ tot @ post"
    using assms(3,5) by (simp add: dropWhile_run dropWhile_digit_spaces)
  have c: "dropWhile is_space (w1 @ slash # w2 @ tot @ post) = slash # w2 @ tot @ post"
    using assms(5) by (simp add: dropWhile_run slash_not_space)
  have d: "dropWhile is_space (w2 @ tot @ post) = tot @ post"
    using assms(2,4,6) by (simp add: dropWhile_run dropWhile_space_digits)
  have e: "takeWhile is_digit (tot @ post) = tot @ takeWhile is_digit post"
    using assms(4) by (simp add: takeWhile_run)
  show ?thesis
    unfolding match_lifts_at_def Let_def a b c
    using assms(1,2) by (simp add: d e)
qed

lemma occurs_at_start: "match_lifts_at s = Some (opn, tot) \<Longrightarrow> spec_liftsOccurs s [] opn tot"
  using match_lifts_at_sound [of s opn tot] unfolding spec_liftsOccurs_def by auto

lemma start_of_occurs: "spec_liftsOccurs s [] opn tot \<Longrightarrow> match_lifts_at s \<noteq> None"
  unfolding spec_liftsOccurs_def using match_lifts_at_complete by fastforce

lemma occurs_Cons:
  "spec_liftsOccurs (c # s) (c # pre) opn tot \<longleftrightarrow> spec_liftsOccurs s pre opn tot"
  by (simp add: spec_liftsOccurs_def)

lemma occurs_not_Nil: "\<not> spec_liftsOccurs [] pre opn tot"
  by (simp add: spec_liftsOccurs_def)

lemma match_lifts_Cons_None:
  "match_lifts_at (c # cs) = None \<Longrightarrow> match_lifts (c # cs) = match_lifts cs"
  by simp

lemma match_lifts_Cons_Some:
  "match_lifts_at (c # cs) = Some g \<Longrightarrow> match_lifts (c # cs) = Some g"
  by simp

lemma match_lifts_occurs:
  "match_lifts s = Some (opn, tot) \<Longrightarrow>
     \<exists>pre. spec_liftsOccurs s pre opn tot
       \<and> (\<forall>pre' opn' tot'. spec_liftsOccurs s pre' opn' tot' \<longrightarrow> length pre \<le> length pre')"
proof (induction s)
  case Nil
  then show ?case by simp
next
  case (Cons c cs)
  show ?case
  proof (cases "match_lifts_at (c # cs)")
    case None
    with Cons.prems have "match_lifts cs = Some (opn, tot)"
      by (simp only: match_lifts_Cons_None)
    from Cons.IH [OF this] obtain pre where
      p: "spec_liftsOccurs cs pre opn tot"
      and m: "\<And>pre' opn' tot'. spec_liftsOccurs cs pre' opn' tot' \<Longrightarrow> length pre \<le> length pre'"
      by blast
    have "length (c # pre) \<le> length pre'" if q: "spec_liftsOccurs (c # cs) pre' opn' tot'"
      for pre' opn' tot'
    proof (cases pre')
      case Nil
      with q None start_of_occurs show ?thesis by blast
    next
      case (Cons x xs)
      with q have "x = c"
        by (auto simp: spec_liftsOccurs_def)
      with q Cons have "spec_liftsOccurs cs xs opn' tot'"
        by (simp add: occurs_Cons)
      from m [OF this] Cons show ?thesis by simp
    qed
    moreover from p have "spec_liftsOccurs (c # cs) (c # pre) opn tot"
      by (simp add: occurs_Cons)
    ultimately show ?thesis by blast
  next
    case (Some g)
    with Cons.prems have "match_lifts_at (c # cs) = Some (opn, tot)"
      by (simp only: match_lifts_Cons_Some)
    then have "spec_liftsOccurs (c # cs) [] opn tot"
      by (rule occurs_at_start)
    then show ?thesis
      by (intro exI [of _ "[]"]) simp
  qed
qed

lemma match_lifts_leftmost:
  assumes "s = pre @ opn @ w1 @ [slash] @ w2 @ tot @ post"
    and "opn \<noteq> []" and "tot \<noteq> []" and "list_all is_digit opn" and "list_all is_digit tot"
    and "list_all is_space w1" and "list_all is_space w2"
    and "post = [] \<or> \<not> is_digit (hd post)"
    and "\<And>pre' opn' tot'. spec_liftsOccurs s pre' opn' tot' \<Longrightarrow> length pre \<le> length pre'"
  shows "match_lifts s = Some (opn, tot)"
  using assms(1,9)
proof (induction pre arbitrary: s)
  case Nil
  have "match_lifts_at (opn @ w1 @ [slash] @ w2 @ tot @ post)
        = Some (opn, tot @ takeWhile is_digit post)"
    using assms(2-7) by (rule match_lifts_at_complete)
  also have "takeWhile is_digit post = []"
    using assms(8) by (rule takeWhile_stop)
  finally have m: "match_lifts_at s = Some (opn, tot)"
    using Nil(1) by simp
  from assms(2) Nil(1) have "s \<noteq> []"
    by simp
  then obtain c cs where "s = c # cs"
    by (cases s) simp_all
  with m show ?case
    by (simp only: match_lifts_Cons_Some)
next
  case (Cons p ps)
  define s' where "s' = ps @ opn @ w1 @ [slash] @ w2 @ tot @ post"
  have s: "s = p # s'"
    unfolding s'_def using Cons.prems(1) by simp
  have n: "match_lifts_at (p # s') = None"
  proof (cases "match_lifts_at (p # s')")
    case None
    then show ?thesis .
  next
    case (Some g)
    obtain o' t' where "g = (o', t')" by (cases g)
    with Some s have "spec_liftsOccurs s [] o' t'"
      by (simp add: occurs_at_start)
    from Cons.prems(2) [OF this] show ?thesis by simp
  qed
  have "length ps \<le> length pre'" if "spec_liftsOccurs s' pre' opn' tot'" for pre' opn' tot'
  proof -
    from that s have "spec_liftsOccurs s (p # pre') opn' tot'"
      by (simp add: occurs_Cons)
    from Cons.prems(2) [OF this] show ?thesis by simp
  qed
  with Cons.IH [of s'] have "match_lifts s' = Some (opn, tot)"
    unfolding s'_def by blast
  with n s show ?case
    by (simp only: match_lifts_Cons_None)
qed

lemma match_lifts_read: "match_lifts s = Some (opn, tot) \<longleftrightarrow> spec_liftsRead s opn tot"
proof
  assume m: "match_lifts s = Some (opn, tot)"
  show "spec_liftsRead s opn tot"
    using m
  proof (induction s)
    case Nil
    then show ?case by simp
  next
    case (Cons c cs)
    show ?case
    proof (cases "match_lifts_at (c # cs)")
      case None
      with Cons.prems have mc: "match_lifts cs = Some (opn, tot)"
        by (simp only: match_lifts_Cons_None)
      from Cons.IH [OF this] obtain pre w1 w2 post where
        d: "cs = pre @ opn @ w1 @ [slash] @ w2 @ tot @ post"
        and rest: "opn \<noteq> []" "tot \<noteq> []" "list_all is_digit opn" "list_all is_digit tot"
          "list_all is_space w1" "list_all is_space w2" "post = [] \<or> \<not> is_digit (hd post)"
        and m: "\<And>pre' opn' tot'. spec_liftsOccurs cs pre' opn' tot'
                  \<Longrightarrow> length pre \<le> length pre'"
        unfolding spec_liftsRead_def by blast
      have l: "length (c # pre) \<le> length pre'" if q: "spec_liftsOccurs (c # cs) pre' opn' tot'"
        for pre' opn' tot'
      proof (cases pre')
        case Nil
        with q None start_of_occurs show ?thesis by blast
      next
        case (Cons x xs)
        with q have "x = c"
          by (auto simp: spec_liftsOccurs_def)
        with q Cons have "spec_liftsOccurs cs xs opn' tot'"
          by (simp add: occurs_Cons)
        from m [OF this] Cons show ?thesis by simp
      qed
      from d have "c # cs = (c # pre) @ opn @ w1 @ [slash] @ w2 @ tot @ post"
        by simp
      with rest l show ?thesis
        unfolding spec_liftsRead_def by blast
    next
      case (Some g)
      with Cons.prems have "match_lifts_at (c # cs) = Some (opn, tot)"
        by (simp only: match_lifts_Cons_Some)
      from match_lifts_at_sound [OF this] obtain w1 w2 post where
        "c # cs = [] @ opn @ w1 @ [slash] @ w2 @ tot @ post"
        and rest: "opn \<noteq> []" "tot \<noteq> []" "list_all is_digit opn" "list_all is_digit tot"
          "list_all is_space w1" "list_all is_space w2" "post = [] \<or> \<not> is_digit (hd post)"
        by auto
      moreover have "length ([] :: jsstring) \<le> length pre'" for pre' :: jsstring
        by simp
      ultimately show ?thesis
        unfolding spec_liftsRead_def by blast
    qed
  qed
next
  assume "spec_liftsRead s opn tot"
  then obtain pre w1 w2 post where
    "s = pre @ opn @ w1 @ [slash] @ w2 @ tot @ post"
    "opn \<noteq> []" "tot \<noteq> []" "list_all is_digit opn" "list_all is_digit tot"
    "list_all is_space w1" "list_all is_space w2" "post = [] \<or> \<not> is_digit (hd post)"
    "\<And>pre' opn' tot'. spec_liftsOccurs s pre' opn' tot' \<Longrightarrow> length pre \<le> length pre'"
    unfolding spec_liftsRead_def by blast
  then show "match_lifts s = Some (opn, tot)"
    by (rule match_lifts_leftmost)
qed

lemma match_lifts_sound:
  "match_lifts s = Some (opn, tot) \<Longrightarrow> spec_liftsPattern s opn tot"
  using match_lifts_occurs [of s opn tot] unfolding spec_liftsPattern_def by blast

lemma match_lifts_complete_occurs:
  "spec_liftsOccurs s pre opn tot \<Longrightarrow> match_lifts s \<noteq> None"
proof (induction pre arbitrary: s)
  case Nil
  then have m: "match_lifts_at s \<noteq> None"
    by (rule start_of_occurs)
  from Nil obtain c cs where "s = c # cs"
    by (cases s) (auto simp: occurs_not_Nil)
  with m show ?case
    by (auto split: option.splits)
next
  case (Cons p ps)
  then obtain s' where s: "s = p # s'"
    by (auto simp: spec_liftsOccurs_def)
  with Cons.prems have "spec_liftsOccurs s' ps opn tot"
    by (simp add: occurs_Cons)
  then have "match_lifts s' \<noteq> None"
    by (rule Cons.IH)
  with s show ?case
    by (auto split: option.splits)
qed

lemma match_lifts_complete:
  "spec_liftsPattern s opn tot \<Longrightarrow> match_lifts s \<noteq> None"
  unfolding spec_liftsPattern_def using match_lifts_complete_occurs by blast

lemma match_lifts_matches:
  "match_lifts l \<noteq> None \<longleftrightarrow> (\<exists>pre opn tot. spec_liftsOccurs l pre opn tot)"
proof
  assume "match_lifts l \<noteq> None"
  then obtain opn tot where "match_lifts l = Some (opn, tot)"
    by (cases "match_lifts l") auto
  from match_lifts_occurs [OF this] show "\<exists>pre opn tot. spec_liftsOccurs l pre opn tot"
    by blast
next
  assume "\<exists>pre opn tot. spec_liftsOccurs l pre opn tot"
  then show "match_lifts l \<noteq> None"
    using match_lifts_complete_occurs by blast
qed

lemma parseInt_digits:
  "ds \<noteq> [] \<Longrightarrow> list_all is_digit ds \<Longrightarrow> parseInt ds = round_double (real (digits_value ds))"
  by (simp add: parseInt_def Let_def takeWhile_all)

lemma read_digits:
  "spec_liftsRead l opn tot \<Longrightarrow>
     parseInt opn = round_double (real (digits_value opn))
     \<and> parseInt tot = round_double (real (digits_value tot))"
  unfolding spec_liftsRead_def by (auto simp: parseInt_digits)

lemma hasEnoughLiftsOpen_iff:
  "hasEnoughLiftsOpen r \<longleftrightarrow>
     (\<exists>rep l opn tot. snow_report r = Some rep \<and> lifts rep = Some l
        \<and> match_lifts l = Some (opn, tot)
        \<and> js_gt (js_div (parseInt opn) (parseInt tot)) (round_double (85 / 100)))"
  by (auto simp: hasEnoughLiftsOpen_def split: option.splits)

lemma hasEnoughLiftsOpen_spec: "hasEnoughLiftsOpen r \<longleftrightarrow> spec_enoughLifts r"
  unfolding hasEnoughLiftsOpen_iff spec_enoughLifts_def match_lifts_read
  using read_digits by metis

lemma keep_onlyLiftsOpen: "keepResort onlyLiftsOpen r \<longleftrightarrow> hasEnoughLiftsOpen r"
  by (simp add: keepResort_def onlyLiftsOpen_def)

lemma round_double_85:
  "round_double (85 / 100) = Fin (7656119366529843 / 9007199254740992)"
  "round_double (17 / 20) = Fin (7656119366529843 / 9007199254740992)"
  by (simp_all add: double_eval)

lemma sample_match:
  "match_lifts (of_ascii ''9 / 10'') = Some (of_ascii ''9'', of_ascii ''10'')"
  "match_lifts (of_ascii ''8/10'') = Some (of_ascii ''8'', of_ascii ''10'')"
  "match_lifts (of_ascii ''all open'') = None"
  by (simp_all add: match_lifts_at_def sample_eval)

text \<open>
  C6. Whatever the other toggles, a record is kept exactly when it passes the test of every
  toggle that is on; the test of the lifts-open toggle is that the report and the lift
  string are there, the string holds the pattern digits, optional space, slash, optional
  space, digits, and the open count divided by the total of its first occurrence exceeds
  0.85, where the two counts, the quotient and 0.85 are doubles. What the code reads is that
  first occurrence with all the digits of the total, and it reads something exactly when the
  pattern occurs somewhere in the string.
\<close>

theorem liftsOpen_filter_spec:
  "(keepResort f r \<longleftrightarrow>
      (goodWeather f \<longrightarrow> isGoodWeather r)
      \<and> (freshSnow f \<longrightarrow> \<not> js_le (snowfall_prev_24h_cm (weather r)) (Fin 0))
      \<and> (liftsOpen f \<longrightarrow> spec_enoughLifts r)
      \<and> (minPistes f \<longrightarrow> \<not> js_lt (getPistesKm r) (Fin 20)))
   \<and> (match_lifts l = Some (opn, tot) \<longleftrightarrow> spec_liftsRead l opn tot)
   \<and> (match_lifts l \<noteq> None \<longleftrightarrow> (\<exists>pre opn tot. spec_liftsOccurs l pre opn tot))"
  by (simp only: keepResort_iff hasEnoughLiftsOpen_spec match_lifts_read match_lifts_matches)

theorem liftsOpen_filter_spec_witness:
  "spec_liftsRead (of_ascii ''9 / 10'') (of_ascii ''9'') (of_ascii ''10'')
   \<and> keepResort onlyLiftsOpen pistes18
   \<and> \<not> keepResort liftsAndPistes pistes18
   \<and> spec_liftsRead (of_ascii ''8/10'') (of_ascii ''8'') (of_ascii ''10'')
   \<and> \<not> keepResort onlyLiftsOpen pistes45
   \<and> \<not> keepResort onlyLiftsOpen noReport
   \<and> \<not> keepResort onlyLiftsOpen pistesEmpty
   \<and> \<not> keepResort onlyLiftsOpen liftsWords"
proof -
  note t = liftsOpen_filter_spec
  have rd: "spec_liftsRead l opn tot = (match_lifts l = Some (opn, tot))" for l opn tot
    by (simp only: t [THEN conjunct2, THEN conjunct1])
  have k: "keepResort onlyLiftsOpen r = spec_enoughLifts r" for r
    by (subst t [THEN conjunct1]) (simp add: onlyLiftsOpen_def)
  have s: "spec_liftsRead (of_ascii ''9 / 10'') (of_ascii ''9'') (of_ascii ''10'')"
    "spec_liftsRead (of_ascii ''8/10'') (of_ascii ''8'') (of_ascii ''10'')"
    by (simp_all only: rd sample_match)
  have "spec_enoughLifts pistes18"
    unfolding spec_enoughLifts_def
    apply (rule exI [of _ "sampleReport (Some (of_ascii ''18 km'')) (Some (of_ascii ''9 / 10''))"])
    apply (rule exI [of _ "of_ascii ''9 / 10''"])
    apply (rule exI [of _ "of_ascii ''9''"])
    apply (rule exI [of _ "of_ascii ''10''"])
    apply (simp add: s)
    apply (simp add: pistes18_def sample_eval double_eval js_gt_def)
    done
  then have a: "keepResort onlyLiftsOpen pistes18"
    by (simp only: k)
  have b: "\<not> keepResort liftsAndPistes pistes18"
    by (subst t [THEN conjunct1]) (simp add: liftsAndPistes_def sample_pistes)
  have c: "\<not> keepResort onlyLiftsOpen pistes45"
    unfolding k spec_enoughLifts_def rd
    by (simp add: pistes45_def sampleResort_def sampleReport_def sample_match)
      (simp add: sample_eval double_eval js_gt_def)
  have d: "\<not> keepResort onlyLiftsOpen noReport"
    unfolding k spec_enoughLifts_def rd
    by (simp add: noReport_def sampleResort_def sampleReport_def)
  have e: "\<not> keepResort onlyLiftsOpen pistesEmpty"
    unfolding k spec_enoughLifts_def rd
    by (simp add: pistesEmpty_def sampleResort_def sampleReport_def)
  have f: "\<not> keepResort onlyLiftsOpen liftsWords"
    unfolding k spec_enoughLifts_def rd
    by (simp add: liftsWords_def sampleResort_def sampleReport_def sample_match)
  from s a b c d e f show ?thesis by blast
qed

text \<open>
  The quotient that decides is a double: for 7650000000000006 of 9000000000000007 lifts the
  quotient of the two doubles is the double nearest to 0.85, which does not exceed itself,
  and the record is dropped.
\<close>

lemma ratio_above_threshold_is_dropped:
  "match_lifts (of_ascii ''7650000000000006/9000000000000007'')
     = Some (of_ascii ''7650000000000006'', of_ascii ''9000000000000007'')
   \<and> 85 / 100 < real (digits_value (of_ascii ''7650000000000006''))
                 / real (digits_value (of_ascii ''9000000000000007''))
   \<and> js_div (parseInt (of_ascii ''7650000000000006'')) (parseInt (of_ascii ''9000000000000007''))
       = round_double (85 / 100)
   \<and> \<not> keepResort onlyLiftsOpen liftsNearly"
proof -
  have m: "match_lifts (of_ascii ''7650000000000006/9000000000000007'')
     = Some (of_ascii ''7650000000000006'', of_ascii ''9000000000000007'')"
    by (simp add: match_lifts_at_def sample_eval)
  have v: "digits_value (of_ascii ''7650000000000006'') = 7650000000000006"
    "digits_value (of_ascii ''9000000000000007'') = 9000000000000007"
    by (simp_all add: sample_eval)
  have r: "85 / 100 < real (digits_value (of_ascii ''7650000000000006''))
                 / real (digits_value (of_ascii ''9000000000000007''))"
    by (simp add: v)
  have p: "parseInt (of_ascii ''7650000000000006'') = Fin 7650000000000006"
    "parseInt (of_ascii ''9000000000000007'') = Fin 9000000000000007"
    by (simp_all add: parseInt_def sample_eval double_eval)
  have q: "js_div (Fin 7650000000000006) (Fin 9000000000000007)
           = Fin (7656119366529843 / 9007199254740992)"
    by (simp add: double_eval)
  have d: "js_div (parseInt (of_ascii ''7650000000000006'')) (parseInt (of_ascii ''9000000000000007''))
       = round_double (85 / 100)"
    by (simp only: p q round_double_85(1))
  have k: "\<not> keepResort onlyLiftsOpen liftsNearly"
    by (simp add: keep_onlyLiftsOpen hasEnoughLiftsOpen_def liftsNearly_def sampleResort_def
          sampleReport_def m d js_gt_def round_double_85)
  from m r d k show ?thesis by blast
qed

text \<open>
  Counts of 310 digits are both read as infinity, their quotient is NaN, and the record is
  dropped.
\<close>

lemma huge_counts_give_NaN:
  "js_div (round_double (10 ^ 309)) (round_double (10 ^ 309)) = NaN"
  by (simp only: round_double_samples js_div.simps)

text \<open>
  C10, as the code has it. The match is not anchored: digits, a slash and digits anywhere in
  the string are enough. When the total read is 0 and the open count is positive, the ratio
  is positive infinity and the record is kept; when both are 0 the ratio is NaN and the
  record is dropped.
\<close>

theorem lifts_unanchored_zero_total:
  "(d1 \<noteq> [] \<and> d2 \<noteq> [] \<and> list_all is_digit d1 \<and> list_all is_digit d2 \<longrightarrow>
      match_lifts (pre @ d1 @ [slash] @ d2 @ post) \<noteq> None)
   \<and> (snow_report r = Some rep \<and> lifts rep = Some l \<and> match_lifts l = Some (opn, tot)
        \<and> digits_value tot = 0 \<longrightarrow>
        (0 < digits_value opn \<longrightarrow>
           js_div (parseInt opn) (parseInt tot) = PosInf \<and> keepResort onlyLiftsOpen r)
        \<and> (digits_value opn = 0 \<longrightarrow>
           js_div (parseInt opn) (parseInt tot) = NaN \<and> \<not> keepResort onlyLiftsOpen r))"
proof (intro conjI impI)
  assume "d1 \<noteq> [] \<and> d2 \<noteq> [] \<and> list_all is_digit d1 \<and> list_all is_digit d2"
  then have "spec_liftsPattern (pre @ d1 @ [slash] @ d2 @ post) d1 d2"
    unfolding spec_liftsPattern_def spec_liftsOccurs_def
    by (intro exI [of _ pre] exI [of _ "[]"] exI [of _ post]) simp
  then show "match_lifts (pre @ d1 @ [slash] @ d2 @ post) \<noteq> None"
    by (rule match_lifts_complete)
next
  assume h: "snow_report r = Some rep \<and> lifts rep = Some l \<and> match_lifts l = Some (opn, tot)
        \<and> digits_value tot = 0"
  then have "spec_liftsRead l opn tot"
    by (simp add: match_lifts_read)
  from read_digits [OF this] h
  have po: "parseInt opn = round_double (real (digits_value opn))"
    and pt: "parseInt tot = Fin 0"
    by (simp_all add: round_double_0)
  {
    assume pos: "0 < digits_value opn"
    from round_double_nat_pos [OF this] po pt
    show inf: "js_div (parseInt opn) (parseInt tot) = PosInf"
      by auto
    with h show "keepResort onlyLiftsOpen r"
      by (auto simp: keep_onlyLiftsOpen hasEnoughLiftsOpen_iff js_gt_def round_double_85)
  }
  {
    assume z: "digits_value opn = 0"
    with po pt show nan: "js_div (parseInt opn) (parseInt tot) = NaN"
      by (simp add: round_double_0)
    with h show "\<not> keepResort onlyLiftsOpen r"
      by (auto simp: keep_onlyLiftsOpen hasEnoughLiftsOpen_iff js_gt_def round_double_85)
  }
qed

theorem lifts_unanchored_zero_total_witness:
  "match_lifts (of_ascii ''12/14 open'') \<noteq> None
   \<and> js_div (parseInt (of_ascii ''3'')) (parseInt (of_ascii ''0'')) = PosInf
   \<and> keepResort onlyLiftsOpen
       (sampleResort ''a'' None (Some (sampleReport None (Some (of_ascii ''3/0'')))))"
proof -
  have m: "match_lifts (of_ascii ''3/0'') = Some (of_ascii ''3'', of_ascii ''0'')"
    by (simp add: of_ascii_def match_lifts_at_def is_digit_def is_space_def slash_def)
  have s: "of_ascii ''12/14 open'' = [] @ of_ascii ''12'' @ [slash] @ of_ascii ''14'' @ of_ascii '' open''"
    by (simp add: of_ascii_def slash_def)
  have dg: "of_ascii ''12'' \<noteq> [] \<and> of_ascii ''14'' \<noteq> [] \<and> list_all is_digit (of_ascii ''12'')
      \<and> list_all is_digit (of_ascii ''14'')"
    by (simp add: of_ascii_def is_digit_def)
  have v: "digits_value (of_ascii ''0'') = 0" "0 < digits_value (of_ascii ''3'')"
    by (simp_all add: of_ascii_def digits_value_def)
  have r: "snow_report (sampleResort ''a'' None (Some (sampleReport None (Some (of_ascii ''3/0'')))))
             = Some (sampleReport None (Some (of_ascii ''3/0'')))"
    "lifts (sampleReport None (Some (of_ascii ''3/0''))) = Some (of_ascii ''3/0'')"
    by (simp_all add: sampleResort_def sampleReport_def)
  note t = lifts_unanchored_zero_total
    [of "of_ascii ''12''" "of_ascii ''14''" "[]" "of_ascii '' open''"
        "sampleResort ''a'' None (Some (sampleReport None (Some (of_ascii ''3/0''))))"
        "sampleReport None (Some (of_ascii ''3/0''))" "of_ascii ''3/0''"
        "of_ascii ''3''" "of_ascii ''0''"]
  from t dg s have "match_lifts (of_ascii ''12/14 open'') \<noteq> None"
    by simp
  moreover from t m v r
  have "js_div (parseInt (of_ascii ''3'')) (parseInt (of_ascii ''0'')) = PosInf
        \<and> keepResort onlyLiftsOpen
            (sampleResort ''a'' None (Some (sampleReport None (Some (of_ascii ''3/0'')))))"
    by blast
  ultimately show ?thesis by blast
qed

text \<open>
  A total of 0 does not always give positive infinity: for the string 0/0 the ratio is NaN,
  no comparison with NaN holds, and the record is dropped.
\<close>

theorem lifts_zero_of_zero_dropped:
  "match_lifts (of_ascii ''0/0'') = Some (of_ascii ''0'', of_ascii ''0'')
   \<and> digits_value (of_ascii ''0'') = 0
   \<and> js_div (parseInt (of_ascii ''0'')) (parseInt (of_ascii ''0'')) \<noteq> PosInf
   \<and> \<not> keepResort onlyLiftsOpen
       (sampleResort ''a'' None (Some (sampleReport None (Some (of_ascii ''0/0'')))))"
  by (simp add: keepResort_def onlyLiftsOpen_def hasEnoughLiftsOpen_def sampleResort_def
        sampleReport_def of_ascii_def match_lifts_at_def is_digit_def is_space_def slash_def
        parseInt_def digits_value_def js_gt_def Let_def round_double_0 round_double_85)

section \<open>Properties of the visible list\<close>

lemma js_sub_positive:
  "a \<noteq> NaN \<Longrightarrow> b \<noteq> NaN \<Longrightarrow> js_gt (js_sub a b) (Fin 0) \<longleftrightarrow> js_lt b a"
  by (cases a; cases b) (simp_all add: js_gt_def)

lemma js_sub_positive_neq: "js_gt (js_sub a b) (Fin 0) \<Longrightarrow> a \<noteq> b"
  by (cases a; cases b) (simp_all add: js_gt_def)

lemma js_le_total: "a \<noteq> NaN \<Longrightarrow> b \<noteq> NaN \<Longrightarrow> \<not> js_lt b a \<Longrightarrow> js_le a b"
  by (simp add: js_le_def)

lemma js_lt_le: "js_lt a b \<Longrightarrow> js_le a b"
  by (cases a; cases b) (simp_all add: js_le_def)

lemma js_le_trans: "js_le a b \<Longrightarrow> js_le b c \<Longrightarrow> js_le a c"
  by (cases a; cases b; cases c) (simp_all add: js_le_def)

lemma js_le_PosInf: "js_le PosInf a \<Longrightarrow> a = PosInf"
  by (cases a) (simp_all add: js_le_def)

lemma set_js_insert: "set (js_insert cmp x ys) = insert x (set ys)"
  by (induction ys) auto

lemma mset_js_insert: "mset (js_insert cmp x ys) = add_mset x (mset ys)"
  by (induction ys) auto

lemma mset_js_sort: "mset (js_sort cmp xs) = mset xs"
  by (induction xs) (simp_all add: js_sort_def mset_js_insert)

lemma set_js_sort: "set (js_sort cmp xs) = set xs"
  using mset_js_sort [of cmp xs] by (metis set_mset_mset)

lemma length_js_sort: "length (js_sort cmp xs) = length xs"
  using mset_js_sort [of cmp xs] by (metis size_mset)

lemma js_sort_Cons: "js_sort cmp (x # xs) = js_insert cmp x (js_sort cmp xs)"
  by (simp add: js_sort_def)

lemma sorted_js_insert:
  assumes "key x \<noteq> NaN" and "\<forall>y\<in>set ys. key y \<noteq> NaN"
    and "sorted_wrt (\<lambda>a b. js_le (key a) (key b)) ys"
  shows "sorted_wrt (\<lambda>a b. js_le (key a) (key b))
           (js_insert (\<lambda>a b. js_sub (key a) (key b)) x ys)"
  using assms
proof (induction ys)
  case Nil
  then show ?case by simp
next
  case (Cons y ys)
  show ?case
  proof (cases "js_gt (js_sub (key x) (key y)) (Fin 0)")
    case True
    with Cons.prems have "js_lt (key y) (key x)"
      by (simp add: js_sub_positive)
    then have "js_le (key y) (key x)"
      by (rule js_lt_le)
    with True Cons show ?thesis
      by (auto simp: set_js_insert)
  next
    case False
    with Cons.prems have xy: "js_le (key x) (key y)"
      by (simp add: js_sub_positive js_le_total)
    have "\<forall>z\<in>set ys. js_le (key x) (key z)"
      using xy Cons.prems(3) js_le_trans by auto
    with False xy Cons.prems(3) show ?thesis
      by simp
  qed
qed

lemma sorted_js_sort:
  assumes "\<forall>y\<in>set xs. key y \<noteq> NaN"
  shows "sorted_wrt (\<lambda>a b. js_le (key a) (key b)) (js_sort (\<lambda>a b. js_sub (key a) (key b)) xs)"
  using assms
proof (induction xs)
  case Nil
  then show ?case by (simp add: js_sort_def)
next
  case (Cons x xs)
  then show ?case
    by (simp add: js_sort_Cons sorted_js_insert set_js_sort)
qed

lemma filter_js_insert:
  "filter (\<lambda>r. key r = k) (js_insert (\<lambda>a b. js_sub (key a) (key b)) x ys)
   = (if key x = k then x # filter (\<lambda>r. key r = k) ys else filter (\<lambda>r. key r = k) ys)"
proof (induction ys)
  case Nil
  show ?case by simp
next
  case (Cons y ys)
  then show ?case
    using js_sub_positive_neq [of "key x" "key y"] by auto
qed

lemma js_sort_stable:
  "filter (\<lambda>r. key r = k) (js_sort (\<lambda>a b. js_sub (key a) (key b)) xs)
   = filter (\<lambda>r. key r = k) xs"
  by (induction xs) (simp_all add: js_sort_def filter_js_insert)

lemma compareResorts_key:
  "compareResorts t = (\<lambda>a b. js_sub (sortValue t a) (sortValue t b))"
  by (rule ext)+ (simp add: compareResorts_def)

lemma sample_distinct:
  "resortA \<noteq> resortB" "resortA \<noteq> resortC" "resortA \<noteq> resortD" "resortB \<noteq> resortC"
  "resortB \<noteq> resortD" "resortC \<noteq> resortD"
  by (simp_all add: resortA_def resortB_def resortC_def resortD_def sampleResort_def of_ascii_def)

lemma sample_keys:
  "sortValue proximity resortA = Fin 30" "sortValue proximity resortB = PosInf"
  "sortValue proximity resortC = Fin 10" "sortValue proximity resortD = Fin 10"
  by (simp_all add: resortA_def resortB_def resortC_def resortD_def sampleResort_def
        sortValue_def nullish_Infinity_def)

lemma keep_noFilters: "keepResort noFilters r"
  by (simp add: keepResort_def noFilters_def)

lemma sample_sorted:
  "filteredAndSortedResorts noFilters proximity [resortA, resortB, resortC, resortD]
   = [resortC, resortD, resortA, resortB]"
  by (simp add: filteredAndSortedResorts_def keep_noFilters js_sort_def compareResorts_def
        sample_keys js_gt_def)

text \<open>
  C4, as the code has it. The visible list is the sort of the filtered list: the filter runs
  first. When no value is NaN (a response decoded from JSON has none), the list is ascending
  in the value the sort type selects, which is \<open>distance_km\<close> for proximity, the driving
  minutes or the transit minutes, a missing field counting as positive infinity, so that
  only records of value infinity follow such a record. The sort is stable: the records of one
  value keep the order they have in the filtered list.
\<close>

theorem visible_sorted_stable:
  "filteredAndSortedResorts f t rs = js_sort (compareResorts t) (filter (keepResort f) rs)
   \<and> sortValue proximity r = nullish_Infinity (distance_km r)
   \<and> sortValue driving r = nullish_Infinity (duration_driving_minutes r)
   \<and> sortValue transit r = nullish_Infinity (duration_transit_minutes r)
   \<and> nullish_Infinity None = PosInf
   \<and> ((\<forall>x\<in>set rs. sortValue t x \<noteq> NaN) \<longrightarrow>
        sorted_wrt (\<lambda>a b. js_le (sortValue t a) (sortValue t b))
          (filteredAndSortedResorts f t rs)
        \<and> (\<forall>i j. i < j \<and> j < length (filteredAndSortedResorts f t rs)
               \<and> sortValue t (filteredAndSortedResorts f t rs ! i) = PosInf
             \<longrightarrow> sortValue t (filteredAndSortedResorts f t rs ! j) = PosInf))
   \<and> filter (\<lambda>x. sortValue t x = k) (filteredAndSortedResorts f t rs)
     = filter (\<lambda>x. sortValue t x = k) (filter (keepResort f) rs)"
proof -
  let ?vis = "filteredAndSortedResorts f t rs"
  have vis: "?vis = js_sort (compareResorts t) (filter (keepResort f) rs)"
    by (simp add: filteredAndSortedResorts_def)
  have stable: "filter (\<lambda>x. sortValue t x = k) ?vis
     = filter (\<lambda>x. sortValue t x = k) (filter (keepResort f) rs)"
    unfolding vis compareResorts_key by (rule js_sort_stable)
  have sorted: "sorted_wrt (\<lambda>a b. js_le (sortValue t a) (sortValue t b)) ?vis"
    if "\<forall>x\<in>set rs. sortValue t x \<noteq> NaN"
    unfolding vis compareResorts_key using that by (intro sorted_js_sort) simp
  have last: "sortValue t (?vis ! j) = PosInf"
    if nn: "\<forall>x\<in>set rs. sortValue t x \<noteq> NaN" and ij: "i < j" "j < length ?vis"
      and inf: "sortValue t (?vis ! i) = PosInf" for i j
  proof -
    from sorted [OF nn] ij have "js_le (sortValue t (?vis ! i)) (sortValue t (?vis ! j))"
      by (simp add: sorted_wrt_iff_nth_less)
    with inf show ?thesis
      by (simp add: js_le_PosInf)
  qed
  show ?thesis
    using vis stable sorted last
    by (auto simp: sortValue_def nullish_Infinity_def)
qed

theorem visible_sorted_stable_witness:
  "sortValue proximity resortA \<noteq> NaN \<and> sortValue proximity resortB \<noteq> NaN
   \<and> sortValue proximity resortC \<noteq> NaN \<and> sortValue proximity resortD \<noteq> NaN
   \<and> filteredAndSortedResorts noFilters proximity [resortA, resortB, resortC, resortD]
     = [resortC, resortD, resortA, resortB]
   \<and> sorted_wrt (\<lambda>a b. js_le (sortValue proximity a) (sortValue proximity b))
       [resortC, resortD, resortA, resortB]
   \<and> filter (\<lambda>x. sortValue proximity x = Fin 10) [resortC, resortD, resortA, resortB]
     = [resortC, resortD]"
proof -
  have h: "\<forall>x\<in>set [resortA, resortB, resortC, resortD]. sortValue proximity x \<noteq> NaN"
    by (simp add: sample_keys)
  note t = visible_sorted_stable
    [of noFilters proximity "[resortA, resortB, resortC, resortD]" resortA "Fin 10"]
  from t h have "sorted_wrt (\<lambda>a b. js_le (sortValue proximity a) (sortValue proximity b))
      (filteredAndSortedResorts noFilters proximity [resortA, resortB, resortC, resortD])"
    by blast
  then have s: "sorted_wrt (\<lambda>a b. js_le (sortValue proximity a) (sortValue proximity b))
      [resortC, resortD, resortA, resortB]"
    by (simp only: sample_sorted)
  from t have "filter (\<lambda>x. sortValue proximity x = Fin 10)
       (filteredAndSortedResorts noFilters proximity [resortA, resortB, resortC, resortD])
     = filter (\<lambda>x. sortValue proximity x = Fin 10)
         (filter (keepResort noFilters) [resortA, resortB, resortC, resortD])"
    by blast
  then have f: "filter (\<lambda>x. sortValue proximity x = Fin 10) [resortC, resortD, resortA, resortB]
     = [resortC, resortD]"
    by (simp add: sample_sorted keep_noFilters sample_keys)
  from h have "sortValue proximity resortA \<noteq> NaN \<and> sortValue proximity resortB \<noteq> NaN
   \<and> sortValue proximity resortC \<noteq> NaN \<and> sortValue proximity resortD \<noteq> NaN"
    by simp
  with s f sample_sorted show ?thesis by blast
qed

text \<open>
  A record carries two distances, \<open>air_distance_km\<close> and \<open>distance_km\<close>, and the proximity
  sort reads the second. Of two records, the one nearer by air comes last when its
  \<open>distance_km\<close> is larger: the list is not ascending in the straight-line distance.
\<close>

theorem proximity_not_by_air_distance:
  "filteredAndSortedResorts noFilters proximity [nearByAir, farByAir] = [farByAir, nearByAir]
   \<and> map air_distance_km (filteredAndSortedResorts noFilters proximity [nearByAir, farByAir])
     = [Fin 10, Fin 5]
   \<and> \<not> js_le (Fin 10) (Fin 5)"
  by (simp add: filteredAndSortedResorts_def keep_noFilters js_sort_def compareResorts_def
        sortValue_def nullish_Infinity_def nearByAir_def farByAir_def sampleResort_def
        js_gt_def js_le_def)

lemma array_filter_frame:
  assumes "array_filter keep a h = (v, h1)"
  shows "v = next_free h" and "next_free h1 = Suc (next_free h)"
    and "read_array h1 v = filter keep (read_array h a)"
    and "\<And>b. b \<noteq> next_free h \<Longrightarrow> cells h1 b = cells h b"
  using assms by (auto simp: array_filter_def read_array_def)

lemma array_sort_frame:
  assumes "array_sort cmp v h1 = (w, h2)"
  shows "w = v" and "next_free h2 = next_free h1"
    and "read_array h2 v = js_sort cmp (read_array h1 v)"
    and "\<And>b. b \<noteq> v \<Longrightarrow> cells h2 b = cells h1 b"
  using assms by (auto simp: array_sort_def read_array_def)

lemma memo_frame:
  assumes "filteredAndSortedResorts_st f t a h = (v, h')"
  shows "v = next_free h" and "next_free h' = Suc (next_free h)"
    and "\<And>b. b \<noteq> next_free h \<Longrightarrow> cells h' b = cells h b"
    and "a \<noteq> next_free h \<Longrightarrow>
         read_array h' v = filteredAndSortedResorts f t (read_array h a)"
proof -
  obtain u h1 where f: "array_filter (keepResort f) a h = (u, h1)"
    by (cases "array_filter (keepResort f) a h")
  with assms have s: "array_sort (compareResorts t) u h1 = (v, h')"
    by (simp add: filteredAndSortedResorts_st_def)
  note ff = array_filter_frame [OF f] and sf = array_sort_frame [OF s]
  show "v = next_free h"
    using ff(1) sf(1) by simp
  show "next_free h' = Suc (next_free h)"
    using ff(2) sf(2) by simp
  show "cells h' b = cells h b" if "b \<noteq> next_free h" for b
    using that ff(1,4) sf(1,4) by simp
  show "read_array h' v = filteredAndSortedResorts f t (read_array h a)"
    if "a \<noteq> next_free h"
    using ff(3) sf(1,3) by (simp add: filteredAndSortedResorts_def)
qed

text \<open>
  C3. Computing the visible list writes no array that existed before, so the accumulated
  results keep their contents and order. The list computed is the sort of the filtered list,
  which is a subsequence of the accumulated results; it has the same records as the
  filtered list. Computing it again gives the same list and again leaves the accumulated
  results alone.
\<close>

theorem visible_list_is_a_view:
  assumes "a < next_free h"
  shows "(\<forall>b. b < next_free h \<longrightarrow>
            cells (snd (filteredAndSortedResorts_st f t a h)) b = cells h b)
    \<and> read_array (snd (filteredAndSortedResorts_st f t a h)) a = read_array h a
    \<and> fst (filteredAndSortedResorts_st f t a h) \<noteq> a
    \<and> read_array (snd (filteredAndSortedResorts_st f t a h))
         (fst (filteredAndSortedResorts_st f t a h))
       = filteredAndSortedResorts f t (read_array h a)
    \<and> filteredAndSortedResorts f t (read_array h a)
       = js_sort (compareResorts t) (filter (keepResort f) (read_array h a))
    \<and> subseq (filter (keepResort f) (read_array h a)) (read_array h a)
    \<and> mset (filteredAndSortedResorts f t (read_array h a))
       = mset (filter (keepResort f) (read_array h a))
    \<and> set (filteredAndSortedResorts f t (read_array h a)) \<subseteq> set (read_array h a)
    \<and> read_array
         (snd (filteredAndSortedResorts_st f t a (snd (filteredAndSortedResorts_st f t a h))))
         (fst (filteredAndSortedResorts_st f t a (snd (filteredAndSortedResorts_st f t a h))))
       = read_array (snd (filteredAndSortedResorts_st f t a h))
           (fst (filteredAndSortedResorts_st f t a h))
    \<and> read_array
         (snd (filteredAndSortedResorts_st f t a (snd (filteredAndSortedResorts_st f t a h)))) a
       = read_array h a"
proof -
  obtain v h' where r1: "filteredAndSortedResorts_st f t a h = (v, h')"
    by (cases "filteredAndSortedResorts_st f t a h")
  obtain v2 h2 where r2: "filteredAndSortedResorts_st f t a h' = (v2, h2)"
    by (cases "filteredAndSortedResorts_st f t a h'")
  note m1 = memo_frame [OF r1] and m2 = memo_frame [OF r2]
  from assms have ne: "a \<noteq> next_free h" by simp
  from assms m1(2) have ne': "a \<noteq> next_free h'" by simp
  have frame: "cells h' b = cells h b" if "b < next_free h" for b
    using that m1(3) by simp
  have keep1: "read_array h' a = read_array h a"
    using frame [OF assms] by (simp add: read_array_def)
  have keep2: "read_array h2 a = read_array h' a"
    using m2(3) [OF ne'] by (simp add: read_array_def)
  have vis1: "read_array h' v = filteredAndSortedResorts f t (read_array h a)"
    using m1(4) [OF ne] .
  have vis2: "read_array h2 v2 = filteredAndSortedResorts f t (read_array h' a)"
    using m2(4) [OF ne'] .
  have sub: "subseq (filter (keepResort f) (read_array h a)) (read_array h a)"
    by simp
  have ms: "mset (filteredAndSortedResorts f t (read_array h a))
       = mset (filter (keepResort f) (read_array h a))"
    by (simp add: filteredAndSortedResorts_def mset_js_sort)
  have st: "set (filteredAndSortedResorts f t (read_array h a)) \<subseteq> set (read_array h a)"
    by (auto simp: filteredAndSortedResorts_def set_js_sort)
  from assms m1(1) have va: "v \<noteq> a" by simp
  show ?thesis
    unfolding r1 r2 fst_conv snd_conv
    using frame keep1 keep2 vis1 vis2 sub ms st va
    by (simp add: filteredAndSortedResorts_def)
qed

theorem visible_list_is_a_view_witness:
  "0 < next_free sampleStore
   \<and> read_array sampleStore 0 = [resortA, resortB, resortC]
   \<and> read_array (snd (filteredAndSortedResorts_st noFilters proximity 0 sampleStore)) 0
     = [resortA, resortB, resortC]
   \<and> read_array (snd (filteredAndSortedResorts_st noFilters proximity 0 sampleStore))
       (fst (filteredAndSortedResorts_st noFilters proximity 0 sampleStore))
     = [resortC, resortA, resortB]"
proof -
  have a: "0 < next_free sampleStore"
    by (simp add: sampleStore_def)
  have r: "read_array sampleStore 0 = [resortA, resortB, resortC]"
    by (simp add: sampleStore_def read_array_def)
  have v: "filteredAndSortedResorts noFilters proximity [resortA, resortB, resortC]
           = [resortC, resortA, resortB]"
    by (simp add: filteredAndSortedResorts_def keep_noFilters js_sort_def compareResorts_def
          sample_keys js_gt_def)
  note t = visible_list_is_a_view [OF a, of noFilters proximity]
  from t r have "read_array (snd (filteredAndSortedResorts_st noFilters proximity 0 sampleStore)) 0
     = [resortA, resortB, resortC]"
    by simp
  moreover from t r v
  have "read_array (snd (filteredAndSortedResorts_st noFilters proximity 0 sampleStore))
       (fst (filteredAndSortedResorts_st noFilters proximity 0 sampleStore))
     = [resortC, resortA, resortB]"
    by simp
  ultimately show ?thesis
    using a r by blast
qed

section \<open>Properties of the search logic\<close>

lemma render_app [simp]: "app (render c) = app c"
  by (simp add: render_def)

lemma render_pending [simp]: "pending (render c) = pending c"
  by (simp add: render_def)

lemma render_unhandled [simp]: "unhandled (render c) = unhandled c"
  by (simp add: render_def)

lemma oneCall_render [simp]: "oneCall (render c) = oneCall c"
  by (simp add: oneCall_def cong: list.case_cong)

lemma inStep_render:
  "inStep (render c) \<longleftrightarrow>
     (loading (app c) = loading (closure c) \<and> hasMore (app c) = hasMore (closure c)
        \<longrightarrow> page (closure c) = page (app c))"
  by (auto simp: render_def inStep_def)

lemmas run_simps =
  run_def initialConfig_def initialState_def firstSearch_def okResponse_def samplePage_def
  render_def spawn_def settle_def answerFetch_def answerGeocode_def canSearch_def loadMoreButtonShown_def
  handleSearch_def handleLoadMore_def loadResorts_def afterResolve_def startFetch_def
  fetched_def fetchResorts_def finallyClause_def catchClause_def geocoded1_def geocoded2_def
  geocodeLocation_def js_trim_def is_space_def of_ascii_def currentLocationLabel_def Let_def

lemma firstSearch_run:
  "app (run firstSearch (initialConfig day1)) =
     (initialState day1)
       \<lparr>userLocation := Some \<lparr>lat = Fin 46, lng = Fin 7\<rparr>,
        locationInput := of_ascii ''Bern'',
        resorts := [resortA], page := 1, hasMore := True, searchPerformed := True,
        totalResorts := 32, shouldScrollToResults := True,
        requests := [\<lparr>rq_lat = Fin 46, rq_lng = Fin 7, rq_date = day1, rq_page = 1,
                       rq_page_size = 15\<rparr>]\<rparr>"
  "pending (run firstSearch (initialConfig day1)) = []"
  "unhandled (run firstSearch (initialConfig day1)) = []"
  by (simp_all add: run_simps)

lemma loadResorts_result:
  assumes "loadResorts isNewSearch snap s = (s', t)" and "page snap = page s"
  shows "page s' = page s"
    and "resorts s' = resorts s" and "hasMore s' = hasMore s" and "alerts s' = alerts s"
    and "t = None \<Longrightarrow> \<not> loading s' \<and> requests s' = requests s"
    and "\<And>task. t = Some task \<Longrightarrow> loading s' \<and> taskFits task s'"
  using assms
  by (auto simp: loadResorts_def afterResolve_def startFetch_def Let_def
      split: option.splits if_splits)

lemma geocoded1_result:
  assumes "geocoded1 isNewSearch snap g s = (s', t)" and "page snap = page s" and "loading s"
  shows "page s' = page s"
    and "t = None \<Longrightarrow> \<not> loading s'"
    and "\<And>task. t = Some task \<Longrightarrow> loading s' \<and> taskFits task s'"
  using assms
  by (auto simp: geocoded1_def afterResolve_def startFetch_def Let_def
      split: option.splits if_splits)

lemma geocoded2_result:
  assumes "geocoded2 isNewSearch snap g s = (s', t)" and "page snap = page s" and "loading s"
  shows "page s' = page s"
    and "t = None \<Longrightarrow> \<not> loading s'"
    and "\<And>task. t = Some task \<Longrightarrow> loading s' \<and> taskFits task s'"
  using assms
  by (auto simp: geocoded2_def startFetch_def Let_def split: option.splits if_splits)

text \<open>The second attempt to geocode is never reached: its test repeats the first one.\<close>

lemma second_geocode_unreachable:
  "snd (loadResorts isNewSearch snap' s) \<noteq> Some (AwaitGeocode2 m snap)"
  by (auto simp: loadResorts_def afterResolve_def startFetch_def Let_def
      split: option.splits if_splits)

lemma fetched_total: "\<exists>s'. fetched isNewSearch rq r s = Inr s' \<and> \<not> loading s'"
  by (auto simp: fetched_def fetchResorts_def finallyClause_def catchClause_def Let_def
      split: http_outcome.splits option.splits sum.splits prod.splits)

lemma oneCall_spawn:
  assumes "oneCall c" and "pending c = []"
    and "t = None \<Longrightarrow> \<not> loading s'"
    and "\<And>task. t = Some task \<Longrightarrow> loading s' \<and> taskFits task s'"
  shows "oneCall (spawn (s', t) c)"
  using assms by (cases t) (auto simp: oneCall_def spawn_def)

lemma oneCall_settle:
  assumes "oneCall c" and "pending c = [t0]"
    and "t = None \<Longrightarrow> \<not> loading s'"
    and "\<And>task. t = Some task \<Longrightarrow> loading s' \<and> taskFits task s'"
  shows "oneCall (settle 0 (s', t) c)"
  using assms by (cases t) (auto simp: oneCall_def settle_def)

lemma oneCall_idle: "oneCall c \<Longrightarrow> \<not> loading (app c) \<Longrightarrow> pending c = []"
  by (auto simp: oneCall_def split: list.splits)

lemma oneCall_busy: "oneCall c \<Longrightarrow> pending c \<noteq> [] \<Longrightarrow> loading (app c)"
  by (auto simp: oneCall_def split: list.splits)

lemma oneCall_single:
  "oneCall c \<Longrightarrow> i < length (pending c) \<Longrightarrow>
   i = 0 \<and> pending c = [pending c ! 0] \<and> loading (app c) \<and> taskFits (pending c ! 0) (app c)"
  by (auto simp: oneCall_def split: list.splits)

lemma oneCall_app_update:
  assumes "oneCall c" and "loading s = loading (app c)" and "page s = page (app c)"
    and "requests s = requests (app c)"
  shows "oneCall (c\<lparr>app := s\<rparr>)"
proof -
  have "taskFits t s = taskFits t (app c)" for t
    using assms(3,4) by (cases t) simp_all
  with assms show ?thesis
    by (auto simp: oneCall_def split: list.splits)
qed

lemma oneCall_loadResorts:
  assumes "oneCall c" and "\<not> loading (app c)" and "page snap = page s"
  shows "oneCall (spawn (loadResorts n snap s) c)"
proof -
  obtain s' t where l: "loadResorts n snap s = (s', t)"
    by (cases "loadResorts n snap s")
  have "oneCall (spawn (s', t) c)"
    using assms(1,2) loadResorts_result(5,6) [OF l assms(3)]
    by (intro oneCall_spawn) (auto dest: oneCall_idle)
  with l show ?thesis by simp
qed

lemma oneCall_handleSearch:
  assumes "oneCall c" and "\<not> loading (app c)"
  shows "oneCall (spawn (handleSearch (app c)) c)"
  unfolding handleSearch_def using assms by (intro oneCall_loadResorts) simp_all

lemma oneCall_handleLoadMore:
  assumes "oneCall c" and "\<not> loading (app c)"
  shows "oneCall (spawn (handleLoadMore (app c)) c)"
  unfolding handleLoadMore_def using assms by (intro oneCall_loadResorts) simp_all

lemma oneCall_answerGeocode:
  assumes "oneCall c"
  shows "oneCall (answerGeocode i r c)"
proof (cases "i < length (pending c)")
  case False
  with assms show ?thesis by (simp add: answerGeocode_def)
next
  case True
  from oneCall_single [OF assms True] have i: "i = 0" and p: "pending c = [pending c ! 0]"
    and l: "loading (app c)" and f: "taskFits (pending c ! 0) (app c)"
    by simp_all
  show ?thesis
  proof (cases "pending c ! 0")
    case (AwaitGeocode1 n snap)
    obtain s' t where g: "geocoded1 n snap (geocodeLocation r) (app c) = (s', t)"
      by (cases "geocoded1 n snap (geocodeLocation r) (app c)")
    from f AwaitGeocode1 have ps: "page snap = page (app c)" by simp
    have "oneCall (settle 0 (s', t) c)"
      using geocoded1_result(2,3) [OF g ps l] by (intro oneCall_settle [OF assms p]) auto
    with True i AwaitGeocode1 g show ?thesis
      by (simp add: answerGeocode_def)
  next
    case (AwaitGeocode2 n snap)
    obtain s' t where g: "geocoded2 n snap (geocodeLocation r) (app c) = (s', t)"
      by (cases "geocoded2 n snap (geocodeLocation r) (app c)")
    from f AwaitGeocode2 have ps: "page snap = page (app c)" by simp
    have "oneCall (settle 0 (s', t) c)"
      using geocoded2_result(2,3) [OF g ps l] by (intro oneCall_settle [OF assms p]) auto
    with True i AwaitGeocode2 g show ?thesis
      by (simp add: answerGeocode_def)
  next
    case (AwaitFetch n rq)
    with True i assms show ?thesis
      by (simp add: answerGeocode_def)
  qed
qed

lemma oneCall_answerFetch:
  assumes "oneCall c"
  shows "oneCall (answerFetch i r c)"
proof (cases "i < length (pending c)")
  case False
  with assms show ?thesis by (simp add: answerFetch_def)
next
  case True
  from oneCall_single [OF assms True] have i: "i = 0" and p: "pending c = [pending c ! 0]"
    by simp_all
  show ?thesis
  proof (cases "pending c ! 0")
    case (AwaitFetch n rq)
    from fetched_total obtain s' where s': "fetched n rq r (app c) = Inr s'" "\<not> loading s'"
      by blast
    have "oneCall (settle 0 (s', None) c)"
      using s'(2) by (intro oneCall_settle [OF assms p]) auto
    with True i AwaitFetch s' show ?thesis
      by (simp add: answerFetch_def)
  next
    case (AwaitGeocode1 n snap)
    with True i assms show ?thesis
      by (simp add: answerFetch_def)
  next
    case (AwaitGeocode2 n snap)
    with True i assms show ?thesis
      by (simp add: answerFetch_def)
  qed
qed

lemma oneCall_fire:
  assumes "oneCall c" and "inStep c" and "pageEvent e"
  shows "oneCall (fire e c)"
proof (cases e)
  case ClickSearch
  with assms show ?thesis
    by (simp add: oneCall_handleSearch canSearch_def)
next
  case ClickLoadMore
  with assms show ?thesis
    by (simp add: oneCall_handleLoadMore loadMoreButtonShown_def)
next
  case SentinelIntersects
  from assms(2) have "page (closure c) = page (app c)"
    by (simp add: inStep_def)
  with SentinelIntersects assms(1) show ?thesis
    by (simp add: oneCall_loadResorts sentinelObserved_def)
next
  case (GeocodeAnswer i r)
  with assms show ?thesis
    by (simp add: oneCall_answerGeocode)
next
  case (FetchAnswer i r)
  with assms show ?thesis
    by (simp add: oneCall_answerFetch)
qed (use assms in \<open>simp_all add: oneCall_app_update\<close>)

lemma inStep_update:
  assumes "inStep c" and "page s' = page (app c) \<or> loading s' \<noteq> loading (app c)"
  shows "inStep (render (c\<lparr>app := s'\<rparr>))"
    and "inStep (spawn (s', t) c)"
    and "inStep (settle i (s', t) c)"
proof -
  have a: "inStep (render (c\<lparr>app := s', pending := p\<rparr>))" for p
    unfolding inStep_render using assms by (auto simp: inStep_def)
  show "inStep (render (c\<lparr>app := s'\<rparr>))"
    unfolding inStep_render using assms by (auto simp: inStep_def)
  show "inStep (spawn (s', t) c)" and "inStep (settle i (s', t) c)"
    by (simp_all only: spawn_def settle_def fst_conv a)
qed

lemma inStep_loadResorts:
  assumes "inStep c" and "page snap = page s" and "page s = page (app c)"
  shows "inStep (spawn (loadResorts n snap s) c)"
proof -
  obtain s' t where l: "loadResorts n snap s = (s', t)"
    by (cases "loadResorts n snap s")
  from loadResorts_result(1) [OF l assms(2)] assms(3) have "page s' = page (app c)"
    by simp
  with assms(1) have "inStep (spawn (s', t) c)"
    by (intro inStep_update) simp_all
  with l show ?thesis by simp
qed

lemma inStep_answerGeocode:
  assumes "oneCall c" and "inStep c"
  shows "inStep (answerGeocode i r c)"
proof (cases "i < length (pending c)")
  case False
  with assms show ?thesis by (simp add: answerGeocode_def)
next
  case True
  from oneCall_single [OF assms(1) True] have i: "i = 0"
    and l: "loading (app c)" and f: "taskFits (pending c ! 0) (app c)"
    by simp_all
  show ?thesis
  proof (cases "pending c ! 0")
    case (AwaitGeocode1 n snap)
    obtain s' t where g: "geocoded1 n snap (geocodeLocation r) (app c) = (s', t)"
      by (cases "geocoded1 n snap (geocodeLocation r) (app c)")
    from f AwaitGeocode1 have ps: "page snap = page (app c)" by simp
    have "inStep (settle 0 (s', t) c)"
      using geocoded1_result(1) [OF g ps l] by (intro inStep_update assms(2)) simp
    with True i AwaitGeocode1 g show ?thesis
      by (simp add: answerGeocode_def)
  next
    case (AwaitGeocode2 n snap)
    obtain s' t where g: "geocoded2 n snap (geocodeLocation r) (app c) = (s', t)"
      by (cases "geocoded2 n snap (geocodeLocation r) (app c)")
    from f AwaitGeocode2 have ps: "page snap = page (app c)" by simp
    have "inStep (settle 0 (s', t) c)"
      using geocoded2_result(1) [OF g ps l] by (intro inStep_update assms(2)) simp
    with True i AwaitGeocode2 g show ?thesis
      by (simp add: answerGeocode_def)
  next
    case (AwaitFetch n rq)
    with True i assms show ?thesis
      by (simp add: answerGeocode_def)
  qed
qed

lemma inStep_answerFetch:
  assumes "oneCall c" and "inStep c"
  shows "inStep (answerFetch i r c)"
proof (cases "i < length (pending c)")
  case False
  with assms show ?thesis by (simp add: answerFetch_def)
next
  case True
  from oneCall_single [OF assms(1) True] have i: "i = 0" and l: "loading (app c)"
    by simp_all
  show ?thesis
  proof (cases "pending c ! 0")
    case (AwaitFetch n rq)
    from fetched_total obtain s' where s': "fetched n rq r (app c) = Inr s'" "\<not> loading s'"
      by blast
    have "inStep (settle 0 (s', None) c)"
      using s'(2) l by (intro inStep_update assms(2)) simp
    with True i AwaitFetch s' show ?thesis
      by (simp add: answerFetch_def)
  next
    case (AwaitGeocode1 n snap)
    with True i assms show ?thesis
      by (simp add: answerFetch_def)
  next
    case (AwaitGeocode2 n snap)
    with True i assms show ?thesis
      by (simp add: answerFetch_def)
  qed
qed

lemma inStep_fire:
  assumes "oneCall c" and "inStep c" and "pageEvent e"
  shows "inStep (fire e c)"
proof (cases e)
  case ClickSearch
  with assms show ?thesis
    by (simp add: handleSearch_def inStep_loadResorts)
next
  case ClickLoadMore
  with assms show ?thesis
    by (simp add: handleLoadMore_def inStep_loadResorts)
next
  case SentinelIntersects
  from assms(2) have "page (closure c) = page (app c)"
    by (simp add: inStep_def)
  with SentinelIntersects assms(2) show ?thesis
    by (simp add: inStep_loadResorts)
next
  case (GeocodeAnswer i r)
  with assms show ?thesis
    by (simp add: inStep_answerGeocode)
next
  case (FetchAnswer i r)
  with assms show ?thesis
    by (simp add: inStep_answerFetch)
qed (use assms in \<open>simp_all add: inStep_update(1)\<close>)

lemma oneCall_initial: "oneCall (initialConfig today)"
  by (simp add: oneCall_def initialConfig_def initialState_def)

lemma inStep_initial: "inStep (initialConfig today)"
  by (simp add: inStep_def initialConfig_def)

lemma reachable_invariant: "reachable c \<Longrightarrow> oneCall c \<and> inStep c"
  by (induction rule: reachable.induct)
     (simp_all add: oneCall_initial inStep_initial oneCall_fire inStep_fire)

lemma reachable_oneCall: "reachable c \<Longrightarrow> oneCall c"
  by (simp add: reachable_invariant)

lemma reachable_run: "reachable c \<Longrightarrow> list_all pageEvent es \<Longrightarrow> reachable (run es c)"
proof (induction es arbitrary: c)
  case Nil
  then show ?case by (simp add: run_def)
next
  case (Cons e es)
  from Cons.prems have "reachable (fire e c)"
    by (simp add: reachable_step)
  with Cons show ?case
    by (simp add: run_def)
qed

lemma fetchResorts_ok: "fetchResorts (okResponse d) s = (s, Inr d)"
  by (simp add: fetchResorts_def okResponse_def)

lemma fetched_ok:
  "fetched isNewSearch rq (okResponse d) s =
   Inr (s\<lparr>resorts := (if isNewSearch then resp_resorts d else resorts s @ resp_resorts d),
          page := rq_page rq, hasMore := has_more d, totalResorts := total_resorts d,
          searchPerformed := True, loading := False\<rparr>)"
  by (simp add: fetched_def fetchResorts_ok finallyClause_def)

lemma fetchResorts_failure:
  assumes "snd (fetchResorts r s) = Inl e"
  shows "fetchResorts r s = (s\<lparr>console := console s @ [FailedToFetch e]\<rparr>, Inl e)"
proof -
  let ?o = "(case r of
               NetworkFailure \<Rightarrow> Inl NetworkError
             | HttpResponse ok statusText body \<Rightarrow>
                 if \<not> ok then Inl (ApiError (of_ascii ''API Error: '' @ statusText))
                 else (case body of None \<Rightarrow> Inl JsonError | Some d \<Rightarrow> Inr d))"
  have f: "fetchResorts r s =
           (case ?o of
              Inl e \<Rightarrow> (s\<lparr>console := console s @ [FailedToFetch e]\<rparr>, Inl e)
            | Inr d \<Rightarrow> (s, Inr d))"
    by (simp only: fetchResorts_def Let_def)
  show ?thesis
    using assms unfolding f by (cases ?o) simp_all
qed

lemma fetched_failure:
  assumes "snd (fetchResorts r s) = Inl e"
  shows "fetched isNewSearch rq r s =
         Inr (s\<lparr>console := console s @ [FailedToFetch e, ErrorLoadingResorts e],
                loading := False\<rparr>)"
  by (simp add: fetched_def fetchResorts_failure [OF assms] finallyClause_def catchClause_def)

lemma fetchResorts_fails:
  "snd (fetchResorts NetworkFailure s) = Inl NetworkError"
  "snd (fetchResorts (HttpResponse False st b) s) = Inl (ApiError (of_ascii ''API Error: '' @ st))"
  "snd (fetchResorts (HttpResponse True st None) s) = Inl JsonError"
  by (simp_all add: fetchResorts_def)

lemma loadResorts_located:
  assumes "userLocation s = Some loc"
  shows "loadResorts isNewSearch s s =
         (s\<lparr>loading := True,
            requests := requests s @
              [\<lparr>rq_lat = lat loc, rq_lng = lng loc, rq_date = date s,
                rq_page = (if isNewSearch then 1 else page s + 1), rq_page_size = 15\<rparr>]\<rparr>,
          Some (AwaitFetch isNewSearch
                  \<lparr>rq_lat = lat loc, rq_lng = lng loc, rq_date = date s,
                   rq_page = (if isNewSearch then 1 else page s + 1), rq_page_size = 15\<rparr>))"
  using assms by (simp add: loadResorts_def afterResolve_def startFetch_def Let_def)

lemma reachable_secondPageInFlight: "reachable (run secondPageInFlight (initialConfig day1))"
  by (rule reachable_run [OF reachable_init])
     (simp add: secondPageInFlight_def firstSearch_def)

lemma secondPageInFlight_run:
  "app (run secondPageInFlight (initialConfig day1)) =
     (initialState day1)
       \<lparr>userLocation := Some \<lparr>lat = Fin 46, lng = Fin 7\<rparr>,
        locationInput := of_ascii ''Bern'',
        resorts := [resortA], page := 1, hasMore := True, loading := True,
        searchPerformed := True,
        totalResorts := 32, shouldScrollToResults := True,
        requests := [\<lparr>rq_lat = Fin 46, rq_lng = Fin 7, rq_date = day1, rq_page = 1,
                       rq_page_size = 15\<rparr>,
                     \<lparr>rq_lat = Fin 46, rq_lng = Fin 7, rq_date = day1, rq_page = 2,
                       rq_page_size = 15\<rparr>]\<rparr>"
  "pending (run secondPageInFlight (initialConfig day1)) =
     [AwaitFetch False \<lparr>rq_lat = Fin 46, rq_lng = Fin 7, rq_date = day1, rq_page = 2,
                       rq_page_size = 15\<rparr>]"
  "unhandled (run secondPageInFlight (initialConfig day1)) = []"
  by (simp_all add: secondPageInFlight_def run_simps)

lemma reachable_pending_fits:
  assumes "reachable c" and "pending c = [AwaitFetch n rq]"
  shows "rq_page rq = (if n then 1 else page (app c) + 1)"
    and "requests (app c) \<noteq> []" and "last (requests (app c)) = rq"
  using reachable_oneCall [OF assms(1)] assms(2) by (simp_all add: oneCall_def)

lemma answerFetch_single:
  assumes "pending c = [AwaitFetch n rq]" and "fetched n rq r (app c) = Inr s'"
  shows "answerFetch 0 r c = render (c\<lparr>app := s', pending := []\<rparr>)"
  using assms by (simp add: answerFetch_def settle_def)







text \<open>
  The guard is on the button, not in the handlers. Called directly while the second page of
  the first session is in flight, which the page does not do, \<^verbatim>\<open>handleSearch\<close> starts the new
  search all the same; its first page arrives and is the whole list, and then the page of
  the old session arrives and is appended to it.
\<close>

lemma stale_response_is_appended:
  "resorts (app (run newSearchArrived (initialConfig day1))) = [resortC]
   \<and> resorts (app (run staleArrival (initialConfig day1))) = [resortC, resortB]
   \<and> page (app (run staleArrival (initialConfig day1))) = 2
   \<and> map rq_date (requests (app (run staleArrival (initialConfig day1)))) = [day1, day1, day2]
   \<and> resortB \<noteq> resortC"
  by (simp add: staleArrival_def newSearchArrived_def run_simps sample_distinct)

text \<open>
  C2, as the code has it. While the indicator is on, the button that loads more is not
  rendered and the observer is not set up, so neither trigger does anything. In every
  configuration the page can reach, at most one call is in flight and the indicator is on
  while it is: no second fetch is sent and none is queued. A fetch in flight asks for the
  first page, for a new search, or for the page after the current one; the page counter
  moves to the page asked for when the fetch succeeds and stays when it fails, so that the
  page is asked for again.
\<close>

theorem load_more_guarded:
  "(loading (app c) \<longrightarrow> fire ClickLoadMore c = c \<and> fire SentinelIntersects c = c)
   \<and> (reachable c \<longrightarrow>
        length (pending c) \<le> 1
        \<and> (pending c \<noteq> [] \<longrightarrow> loading (app c))
        \<and> (pending c = [AwaitFetch n rq] \<longrightarrow>
             rq_page rq = (if n then 1 else page (app c) + 1)
             \<and> page (app (fire (FetchAnswer 0 (okResponse d)) c)) = rq_page rq
             \<and> (snd (fetchResorts r (app c)) = Inl e \<longrightarrow>
                  page (app (fire (FetchAnswer 0 r) c)) = page (app c))))"
proof (intro conjI impI)
  assume "loading (app c)"
  then show "fire ClickLoadMore c = c" and "fire SentinelIntersects c = c"
    by (simp_all add: loadMoreButtonShown_def sentinelObserved_def)
next
  assume r: "reachable c"
  then have o: "oneCall c"
    by (rule reachable_oneCall)
  then show "length (pending c) \<le> 1"
    by (auto simp: oneCall_def split: list.splits)
  {
    assume "pending c \<noteq> []"
    with o show "loading (app c)"
      by (rule oneCall_busy)
  }
  {
    assume p: "pending c = [AwaitFetch n rq]"
    from r p show "rq_page rq = (if n then 1 else page (app c) + 1)"
      by (rule reachable_pending_fits(1))
    show "page (app (fire (FetchAnswer 0 (okResponse d)) c)) = rq_page rq"
      by (simp add: answerFetch_single [OF p fetched_ok])
    {
      assume "snd (fetchResorts r (app c)) = Inl e"
      then show "page (app (fire (FetchAnswer 0 r) c)) = page (app c)"
        by (simp add: answerFetch_single [OF p fetched_failure])
    }
  }
qed

theorem load_more_guarded_witness:
  "loading (app (run secondPageInFlight (initialConfig day1)))
   \<and> reachable (run secondPageInFlight (initialConfig day1))
   \<and> fire ClickLoadMore (run secondPageInFlight (initialConfig day1))
     = run secondPageInFlight (initialConfig day1)
   \<and> fire SentinelIntersects (run secondPageInFlight (initialConfig day1))
     = run secondPageInFlight (initialConfig day1)
   \<and> page (app (run secondPageInFlight (initialConfig day1))) = 1
   \<and> page (app (fire (FetchAnswer 0 (okResponse (samplePage 2 True [resortB])))
                  (run secondPageInFlight (initialConfig day1)))) = 2
   \<and> page (app (fire (FetchAnswer 0 NetworkFailure)
                  (run secondPageInFlight (initialConfig day1)))) = 1"
proof -
  let ?c = "run secondPageInFlight (initialConfig day1)"
  let ?rq = "\<lparr>rq_lat = Fin 46, rq_lng = Fin 7, rq_date = day1, rq_page = 2, rq_page_size = 15\<rparr>"
  have l: "loading (app ?c)" and p: "pending ?c = [AwaitFetch False ?rq]"
    and g: "page (app ?c) = 1"
    by (simp_all add: secondPageInFlight_run)
  have f: "snd (fetchResorts NetworkFailure (app ?c)) = Inl NetworkError"
    by (rule fetchResorts_fails)
  note t = load_more_guarded
    [of ?c False ?rq "samplePage 2 True [resortB]" NetworkFailure NetworkError]
  from t l reachable_secondPageInFlight p f g show ?thesis
    by simp
qed

text \<open>
  The pages asked for do not always increase: when the fetch of the second page fails and the
  user asks for more again, the second page is asked for a second time. And
  \<^verbatim>\<open>handleLoadMore\<close> has no guard of its own: called while a fetch is in flight, it sends
  another one.
\<close>

theorem same_page_requested_twice:
  "list_all pageEvent retryAfterFailure
   \<and> map rq_page (requests (app (run retryAfterFailure (initialConfig day1)))) = [1, 2, 2]
   \<and> loading (app (run secondPageInFlight (initialConfig day1)))
   \<and> length (pending (fire CallHandleLoadMore (run secondPageInFlight (initialConfig day1)))) = 2"
  by (simp add: retryAfterFailure_def secondPageInFlight_def run_simps)

text \<open>
  The observer calls the \<^verbatim>\<open>handleLoadMore\<close> of the render in which its callback was made: the
  request it sends carries the date and the place of that render, while the button sends
  those of the latest one.
\<close>

lemma observer_keeps_old_date_and_place:
  "list_all pageEvent observerLoadsMore
   \<and> requests (app (run observerLoadsMore (initialConfig day1)))
     = [\<lparr>rq_lat = Fin 46, rq_lng = Fin 7, rq_date = day1, rq_page = 1, rq_page_size = 15\<rparr>,
        \<lparr>rq_lat = Fin 46, rq_lng = Fin 7, rq_date = day1, rq_page = 2, rq_page_size = 15\<rparr>]
   \<and> requests (app (run buttonLoadsMore (initialConfig day1)))
     = [\<lparr>rq_lat = Fin 46, rq_lng = Fin 7, rq_date = day1, rq_page = 1, rq_page_size = 15\<rparr>,
        \<lparr>rq_lat = Fin 47, rq_lng = Fin 9, rq_date = day2, rq_page = 2, rq_page_size = 15\<rparr>]"
  by (simp add: observerLoadsMore_def buttonLoadsMore_def twoShown_def run_simps
        sentinelObserved_def filteredAndSortedResorts_def length_js_sort keepResort_def)

lemma loadMoreOk_located:
  assumes "userLocation s = Some loc"
  shows "\<exists>s'. loadMoreOk d s = Some s'
           \<and> resorts s' = resorts s @ resp_resorts d
           \<and> page s' = page s + 1
           \<and> hasMore s' = has_more d
           \<and> \<not> loading s'
           \<and> userLocation s' = Some loc
           \<and> map rq_page (requests s') = map rq_page (requests s) @ [page s + 1]"
  using assms
  by (simp add: loadMoreOk_def handleLoadMore_def loadResorts_located [OF assms] fetched_ok)

lemma loadMoreAll_located:
  assumes "userLocation s = Some loc"
  shows "\<exists>s'. loadMoreAll ds s = Some s'
           \<and> resorts s' = resorts s @ concat (map resp_resorts ds)
           \<and> page s' = page s + length ds
           \<and> userLocation s' = Some loc
           \<and> map rq_page (requests s')
             = map rq_page (requests s) @ [page s + 1 ..< page s + 1 + length ds]"
  using assms
proof (induction ds arbitrary: s)
  case Nil
  then show ?case by simp
next
  case (Cons d ds)
  from loadMoreOk_located [OF Cons.prems, of d] obtain s1 where
    s1: "loadMoreOk d s = Some s1" "resorts s1 = resorts s @ resp_resorts d"
      "page s1 = page s + 1" "userLocation s1 = Some loc"
      "map rq_page (requests s1) = map rq_page (requests s) @ [page s + 1]"
    by blast
  from Cons.IH [OF s1(4)] obtain s' where
    s': "loadMoreAll ds s1 = Some s'" "resorts s' = resorts s1 @ concat (map resp_resorts ds)"
      "page s' = page s1 + length ds" "userLocation s' = Some loc"
      "map rq_page (requests s')
       = map rq_page (requests s1) @ [page s1 + 1 ..< page s1 + 1 + length ds]"
    by blast
  have "[page s + 1 ..< page s + 1 + length (d # ds)]
        = (page s + 1) # [page s1 + 1 ..< page s1 + 1 + length ds]"
    using s1(3) by (subst upt_rec) simp
  with s1 s' show ?case
    by simp
qed

lemma searchOk_located:
  assumes "userLocation s = Some loc"
  shows "\<exists>s'. searchOk d s = Some s'
           \<and> resorts s' = resp_resorts d
           \<and> page s' = 1
           \<and> hasMore s' = has_more d
           \<and> \<not> loading s'
           \<and> userLocation s' = Some loc"
proof -
  have "userLocation (s\<lparr>shouldScrollToResults := True\<rparr>) = Some loc"
    using assms by simp
  from loadResorts_located [OF this, of True] assms show ?thesis
    by (simp add: searchOk_def handleSearch_def fetched_ok)
qed

text \<open>
  C5, as the code has it. With the location resolved, every one of N successive calls of
  \<^verbatim>\<open>handleLoadMore\<close> that succeeds appends its records: afterwards the results are the
  earlier results followed by the pages in order of arrival, and the pages asked for are the
  N pages after the current one. Starting a new search changes neither the results nor the
  page counter nor has-more: it only turns the indicator on and asks for page 1. When the
  first page arrives, its records replace the results, the page counter is 1 and has-more is
  what the response says; so a search followed by successful loads holds exactly the pages
  received, as many records as they have together.
\<close>

theorem accumulation_and_new_search:
  assumes "userLocation s = Some loc"
  shows "(\<exists>s'. loadMoreAll ds s = Some s'
           \<and> resorts s' = resorts s @ concat (map resp_resorts ds)
           \<and> length (resorts s')
             = length (resorts s) + sum_list (map (\<lambda>x. length (resp_resorts x)) ds)
           \<and> page s' = page s + length ds
           \<and> map rq_page (requests s')
             = map rq_page (requests s) @ [page s + 1 ..< page s + 1 + length ds])
    \<and> (\<exists>s1 rq. handleSearch s = (s1, Some (AwaitFetch True rq))
           \<and> rq_page rq = 1 \<and> loading s1
           \<and> resorts s1 = resorts s \<and> page s1 = page s \<and> hasMore s1 = hasMore s)
    \<and> (\<exists>s2. searchOk d s = Some s2
           \<and> resorts s2 = resp_resorts d \<and> page s2 = 1 \<and> hasMore s2 = has_more d
           \<and> (\<exists>s3. loadMoreAll ds s2 = Some s3
                  \<and> resorts s3 = concat (map resp_resorts (d # ds))
                  \<and> length (resorts s3)
                    = sum_list (map (\<lambda>x. length (resp_resorts x)) (d # ds))
                  \<and> page s3 = 1 + length ds))"
proof (intro conjI)
  from loadMoreAll_located [OF assms, of ds] obtain s' where
    s': "loadMoreAll ds s = Some s'" "resorts s' = resorts s @ concat (map resp_resorts ds)"
      "page s' = page s + length ds"
      "map rq_page (requests s')
       = map rq_page (requests s) @ [page s + 1 ..< page s + 1 + length ds]"
    by blast
  have "length (concat (map resp_resorts ds)) = sum_list (map (\<lambda>x. length (resp_resorts x)) ds)"
    by (simp add: length_concat comp_def)
  with s' show "\<exists>s'. loadMoreAll ds s = Some s'
           \<and> resorts s' = resorts s @ concat (map resp_resorts ds)
           \<and> length (resorts s')
             = length (resorts s) + sum_list (map (\<lambda>x. length (resp_resorts x)) ds)
           \<and> page s' = page s + length ds
           \<and> map rq_page (requests s')
             = map rq_page (requests s) @ [page s + 1 ..< page s + 1 + length ds]"
    by simp
next
  have "userLocation (s\<lparr>shouldScrollToResults := True\<rparr>) = Some loc"
    using assms by simp
  from loadResorts_located [OF this, of True]
  show "\<exists>s1 rq. handleSearch s = (s1, Some (AwaitFetch True rq))
           \<and> rq_page rq = 1 \<and> loading s1
           \<and> resorts s1 = resorts s \<and> page s1 = page s \<and> hasMore s1 = hasMore s"
    by (simp add: handleSearch_def)
next
  from searchOk_located [OF assms, of d] obtain s2 where
    s2: "searchOk d s = Some s2" "resorts s2 = resp_resorts d" "page s2 = 1"
      "hasMore s2 = has_more d" "userLocation s2 = Some loc"
    by blast
  from loadMoreAll_located [OF s2(5), of ds] obtain s3 where
    s3: "loadMoreAll ds s2 = Some s3" "resorts s3 = resorts s2 @ concat (map resp_resorts ds)"
      "page s3 = page s2 + length ds"
    by blast
  have "length (concat (map resp_resorts ds)) = sum_list (map (\<lambda>x. length (resp_resorts x)) ds)"
    by (simp add: length_concat comp_def)
  with s2 s3 show "\<exists>s2. searchOk d s = Some s2
           \<and> resorts s2 = resp_resorts d \<and> page s2 = 1 \<and> hasMore s2 = has_more d
           \<and> (\<exists>s3. loadMoreAll ds s2 = Some s3
                  \<and> resorts s3 = concat (map resp_resorts (d # ds))
                  \<and> length (resorts s3)
                    = sum_list (map (\<lambda>x. length (resp_resorts x)) (d # ds))
                  \<and> page s3 = 1 + length ds)"
    by simp
qed

theorem accumulation_and_new_search_witness:
  "userLocation (app (run firstSearch (initialConfig day1))) = Some \<lparr>lat = Fin 46, lng = Fin 7\<rparr>
   \<and> resorts (app (run firstSearch (initialConfig day1))) = [resortA]
   \<and> map_option resorts
        (loadMoreAll [samplePage 2 True [resortB], samplePage 3 False [resortC, resortD]]
           (app (run firstSearch (initialConfig day1))))
     = Some [resortA, resortB, resortC, resortD]
   \<and> map_option resorts
        (searchOk (samplePage 1 True [resortD]) (app (run firstSearch (initialConfig day1))))
     = Some [resortD]"
proof -
  let ?s = "app (run firstSearch (initialConfig day1))"
  let ?ds = "[samplePage 2 True [resortB], samplePage 3 False [resortC, resortD]]"
  have u: "userLocation ?s = Some \<lparr>lat = Fin 46, lng = Fin 7\<rparr>"
    and r: "resorts ?s = [resortA]"
    by (simp_all add: firstSearch_run)
  note t = accumulation_and_new_search [OF u, of ?ds "samplePage 1 True [resortD]"]
  from t obtain s' where "loadMoreAll ?ds ?s = Some s'"
    and "resorts s' = resorts ?s @ concat (map resp_resorts ?ds)"
    by blast
  with r have a: "map_option resorts (loadMoreAll ?ds ?s)
                  = Some [resortA, resortB, resortC, resortD]"
    by (simp add: samplePage_def)
  from t obtain s2 where "searchOk (samplePage 1 True [resortD]) ?s = Some s2"
    and "resorts s2 = resp_resorts (samplePage 1 True [resortD])"
    by blast
  then have b: "map_option resorts (searchOk (samplePage 1 True [resortD]) ?s) = Some [resortD]"
    by (simp add: samplePage_def)
  from u r a b show ?thesis by blast
qed

text \<open>
  Starting a new search clears nothing: two pages are loaded, the user picks another place
  and day and searches, and while the first page of the new search is in flight the results,
  the page counter and has-more are those of the old session.
\<close>

theorem new_search_keeps_old_results:
  "list_all pageEvent secondSearchStarted
   \<and> pending (run secondSearchStarted (initialConfig day1))
     = [AwaitFetch True \<lparr>rq_lat = Fin 47, rq_lng = Fin 9, rq_date = day2, rq_page = 1,
                          rq_page_size = 15\<rparr>]
   \<and> resorts (app (run secondSearchStarted (initialConfig day1))) = [resortA, resortB]
   \<and> page (app (run secondSearchStarted (initialConfig day1))) = 2
   \<and> hasMore (app (run secondSearchStarted (initialConfig day1)))"
  by (simp add: secondSearchStarted_def run_simps)

lemma canSearch_typed:
  "canSearch s \<Longrightarrow> \<not> isUsingGPS s \<Longrightarrow> locationInput s \<noteq> [] \<and> \<not> loading s"
  by (auto simp: canSearch_def js_trim_def)

text \<open>
  C8. A search on typed text with no resolved location asks the geocoding service. When the
  service finds nothing, the call ends: an alert names the text that was searched, the
  indicator is cleared, no request for resorts is sent and the results, the page counter and
  has-more are as before. This holds in whatever state the answer finds the component.
\<close>

theorem unresolved_location_aborts:
  assumes "pending c = []" and "canSearch (app c)" and "\<not> isUsingGPS (app c)"
    and "locationInput (app c) \<noteq> currentLocationLabel" and "userLocation (app c) = None"
    and "geocodeLocation r = None"
  shows "pending (fire ClickSearch c)
         = [AwaitGeocode1 True ((app c)\<lparr>shouldScrollToResults := True\<rparr>)]
    \<and> requests (app (fire ClickSearch c)) = requests (app c)
    \<and> pending (fire (GeocodeAnswer 0 r) (fire ClickSearch c)) = []
    \<and> alerts (app (fire (GeocodeAnswer 0 r) (fire ClickSearch c)))
      = alerts (app c) @ [of_ascii ''Could not find location: '' @ locationInput (app c)]
    \<and> requests (app (fire (GeocodeAnswer 0 r) (fire ClickSearch c))) = requests (app c)
    \<and> resorts (app (fire (GeocodeAnswer 0 r) (fire ClickSearch c))) = resorts (app c)
    \<and> page (app (fire (GeocodeAnswer 0 r) (fire ClickSearch c))) = page (app c)
    \<and> hasMore (app (fire (GeocodeAnswer 0 r) (fire ClickSearch c))) = hasMore (app c)
    \<and> \<not> loading (app (fire (GeocodeAnswer 0 r) (fire ClickSearch c)))
    \<and> geocoded1 n snap (geocodeLocation r) s2
      = (s2\<lparr>alerts := alerts s2 @ [of_ascii ''Could not find location: '' @ locationInput snap],
            loading := False\<rparr>, None)"
proof -
  let ?s = "(app c)\<lparr>shouldScrollToResults := True\<rparr>"
  define c1 where "c1 = fire ClickSearch c"
  define c2 where "c2 = fire (GeocodeAnswer 0 r) c1"
  from canSearch_typed [OF assms(2,3)] have ne: "locationInput (app c) \<noteq> []"
    by simp
  have l: "loadResorts True ?s ?s = (?s\<lparr>loading := True\<rparr>, Some (AwaitGeocode1 True ?s))"
    using assms(3,4,5) ne by (simp add: loadResorts_def Let_def)
  have f: "c1 = render (c\<lparr>app := ?s\<lparr>loading := True\<rparr>, pending := [AwaitGeocode1 True ?s]\<rparr>)"
    unfolding c1_def using assms(1,2) l by (simp add: handleSearch_def spawn_def)
  have g: "geocoded1 n snap (geocodeLocation r) s2
      = (s2\<lparr>alerts := alerts s2 @ [of_ascii ''Could not find location: '' @ locationInput snap],
            loading := False\<rparr>, None)" for n snap s2
    using assms(6) by (simp add: geocoded1_def)
  have a: "app c2 = ?s\<lparr>loading := True,
                          alerts := alerts (app c)
                            @ [of_ascii ''Could not find location: '' @ locationInput (app c)],
                          loading := False\<rparr>"
    "pending c2 = []"
    unfolding c2_def f by (simp_all add: answerGeocode_def g settle_def)
  have "pending c1 = [AwaitGeocode1 True ?s]
    \<and> requests (app c1) = requests (app c)
    \<and> pending c2 = []
    \<and> alerts (app c2)
      = alerts (app c) @ [of_ascii ''Could not find location: '' @ locationInput (app c)]
    \<and> requests (app c2) = requests (app c)
    \<and> resorts (app c2) = resorts (app c)
    \<and> page (app c2) = page (app c)
    \<and> hasMore (app c2) = hasMore (app c)
    \<and> \<not> loading (app c2)
    \<and> geocoded1 n snap (geocodeLocation r) s2
      = (s2\<lparr>alerts := alerts s2 @ [of_ascii ''Could not find location: '' @ locationInput snap],
            loading := False\<rparr>, None)"
    by (simp add: f a g)
  then show ?thesis
    unfolding c2_def c1_def .
qed

theorem unresolved_location_aborts_witness:
  "pending (fire ClickSearch (run [InputChange (of_ascii ''Nowhereville123xyz'')]
                                 (initialConfig day1))) \<noteq> []
   \<and> pending (run (unknownPlace @ [GeocodeAnswer 0 (GeocodeResults [])]) (initialConfig day1)) = []
   \<and> alerts (app (run (unknownPlace @ [GeocodeAnswer 0 (GeocodeResults [])])
                     (initialConfig day1)))
     = [of_ascii ''Could not find location: Nowhereville123xyz'']
   \<and> requests (app (run (unknownPlace @ [GeocodeAnswer 0 (GeocodeResults [])])
                       (initialConfig day1))) = []
   \<and> resorts (app (run (unknownPlace @ [GeocodeAnswer 0 (GeocodeResults [])])
                      (initialConfig day1))) = []
   \<and> \<not> loading (app (run (unknownPlace @ [GeocodeAnswer 0 (GeocodeResults [])])
                         (initialConfig day1)))"
proof -
  let ?c = "run [InputChange (of_ascii ''Nowhereville123xyz'')] (initialConfig day1)"
  have c: "?c = \<lparr>app = (initialState day1)\<lparr>locationInput := of_ascii ''Nowhereville123xyz''\<rparr>,
                 pending = [], unhandled = [], closure = initialState day1\<rparr>"
    by (simp add: run_def initialConfig_def initialState_def render_def)
  have h: "pending ?c = []" "canSearch (app ?c)" "\<not> isUsingGPS (app ?c)"
    "locationInput (app ?c) \<noteq> currentLocationLabel" "userLocation (app ?c) = None"
    unfolding c
    by (simp_all add: initialState_def canSearch_def js_trim_def is_space_def of_ascii_def
          currentLocationLabel_def)
  have g: "geocodeLocation (GeocodeResults []) = None"
    by (simp add: geocodeLocation_def)
  have r: "run (unknownPlace @ [GeocodeAnswer 0 (GeocodeResults [])]) (initialConfig day1)
           = fire (GeocodeAnswer 0 (GeocodeResults [])) (fire ClickSearch ?c)"
    by (simp add: unknownPlace_def run_def)
  have i: "alerts (app ?c) = []" "requests (app ?c) = []" "resorts (app ?c) = []"
    "locationInput (app ?c) = of_ascii ''Nowhereville123xyz''"
    unfolding c by (simp_all add: initialState_def)
  note t = unresolved_location_aborts [OF h g]
  from t i show ?thesis
    unfolding r by (simp add: of_ascii_def)
qed

text \<open>
  C9. A fetch of resorts fails when the transport fails, when the status is not ok, or when
  the body does not decode. The failure is logged twice, by \<^verbatim>\<open>fetchResorts\<close> and by the
  \<^verbatim>\<open>catch\<close> of \<^verbatim>\<open>loadResorts\<close>, the indicator is cleared, and nothing else changes: the
  results, the page counter and has-more are as before. Whatever the answer, the call ends
  without a rejection, and none is left unhandled.
\<close>

theorem fetch_failure_is_contained:
  "(r = NetworkFailure \<or> r = HttpResponse False st b \<longrightarrow>
      (\<exists>e'. snd (fetchResorts r s) = Inl e'))
   \<and> (snd (fetchResorts r s) = Inl e \<longrightarrow>
        fetched n rq r s
        = Inr (s\<lparr>console := console s @ [FailedToFetch e, ErrorLoadingResorts e],
                 loading := False\<rparr>))
   \<and> (\<exists>s'. fetched n rq r s = Inr s' \<and> \<not> loading s')
   \<and> (pending c = [AwaitFetch n rq] \<and> snd (fetchResorts r (app c)) = Inl e \<longrightarrow>
        unhandled (fire (FetchAnswer 0 r) c) = unhandled c
        \<and> pending (fire (FetchAnswer 0 r) c) = []
        \<and> resorts (app (fire (FetchAnswer 0 r) c)) = resorts (app c)
        \<and> page (app (fire (FetchAnswer 0 r) c)) = page (app c)
        \<and> hasMore (app (fire (FetchAnswer 0 r) c)) = hasMore (app c)
        \<and> \<not> loading (app (fire (FetchAnswer 0 r) c))
        \<and> console (app (fire (FetchAnswer 0 r) c))
          = console (app c) @ [FailedToFetch e, ErrorLoadingResorts e])"
proof (intro conjI impI)
  assume "r = NetworkFailure \<or> r = HttpResponse False st b"
  then show "\<exists>e'. snd (fetchResorts r s) = Inl e'"
    using fetchResorts_fails(1,2) by blast
next
  assume "snd (fetchResorts r s) = Inl e"
  then show "fetched n rq r s
        = Inr (s\<lparr>console := console s @ [FailedToFetch e, ErrorLoadingResorts e],
                 loading := False\<rparr>)"
    by (rule fetched_failure)
next
  show "\<exists>s'. fetched n rq r s = Inr s' \<and> \<not> loading s'"
    by (rule fetched_total)
next
  assume h: "pending c = [AwaitFetch n rq] \<and> snd (fetchResorts r (app c)) = Inl e"
  then have a: "answerFetch 0 r c
      = render (c\<lparr>app := (app c)\<lparr>console := console (app c)
                                           @ [FailedToFetch e, ErrorLoadingResorts e],
                                loading := False\<rparr>,
                  pending := []\<rparr>)"
    by (simp add: answerFetch_single fetched_failure)
  show "unhandled (fire (FetchAnswer 0 r) c) = unhandled c"
    and "pending (fire (FetchAnswer 0 r) c) = []"
    and "resorts (app (fire (FetchAnswer 0 r) c)) = resorts (app c)"
    and "page (app (fire (FetchAnswer 0 r) c)) = page (app c)"
    and "hasMore (app (fire (FetchAnswer 0 r) c)) = hasMore (app c)"
    and "\<not> loading (app (fire (FetchAnswer 0 r) c))"
    and "console (app (fire (FetchAnswer 0 r) c))
          = console (app c) @ [FailedToFetch e, ErrorLoadingResorts e]"
    by (simp_all add: a)
qed

theorem fetch_failure_is_contained_witness:
  "pending (run secondPageInFlight (initialConfig day1)) \<noteq> []
   \<and> resorts (app (fire (FetchAnswer 0 (HttpResponse False (of_ascii ''Bad Gateway'') None))
                     (run secondPageInFlight (initialConfig day1)))) = [resortA]
   \<and> \<not> loading (app (fire (FetchAnswer 0 (HttpResponse False (of_ascii ''Bad Gateway'') None))
                        (run secondPageInFlight (initialConfig day1))))
   \<and> unhandled (fire (FetchAnswer 0 (HttpResponse False (of_ascii ''Bad Gateway'') None))
                  (run secondPageInFlight (initialConfig day1))) = []
   \<and> console (app (fire (FetchAnswer 0 (HttpResponse False (of_ascii ''Bad Gateway'') None))
                     (run secondPageInFlight (initialConfig day1))))
     = [FailedToFetch (ApiError (of_ascii ''API Error: Bad Gateway'')),
        ErrorLoadingResorts (ApiError (of_ascii ''API Error: Bad Gateway''))]"
proof -
  let ?c = "run secondPageInFlight (initialConfig day1)"
  let ?r = "HttpResponse False (of_ascii ''Bad Gateway'') None"
  let ?rq = "\<lparr>rq_lat = Fin 46, rq_lng = Fin 7, rq_date = day1, rq_page = 2, rq_page_size = 15\<rparr>"
  have p: "pending ?c = [AwaitFetch False ?rq]"
    and i: "resorts (app ?c) = [resortA]" "console (app ?c) = []" "unhandled ?c = []"
    by (simp_all add: secondPageInFlight_run initialState_def)
  have f: "snd (fetchResorts ?r (app ?c))
           = Inl (ApiError (of_ascii ''API Error: '' @ of_ascii ''Bad Gateway''))"
    by (rule fetchResorts_fails)
  note t = fetch_failure_is_contained
    [of ?r "of_ascii ''Bad Gateway''" None "app ?c"
        "ApiError (of_ascii ''API Error: '' @ of_ascii ''Bad Gateway'')" False ?rq ?c]
  from t p f i show ?thesis
    by (simp add: of_ascii_def)
qed

end
